theory Spec2Isabelle
  imports Complex_Main "HOL-Library.Word" "HOL-Library.Log_Nat" "HOL-Library.AList"
begin

section \<open>Data model\<close>

text \<open>
  A \<open>uint256\<close> (block hash, proTxHash, digest) is a value of a linearly ordered type
  \<open>'h\<close>: the code only compares such values with \<open>==\<close> and \<open>operator<\<close>, hashes them and
  reads their low 64 bits. The quorum type is a \<open>uint8_t\<close>.
\<close>

type_synonym llmq_type = "8 word"

record 'h CBlockIndex =
  blockHash :: 'h
  nHeight :: int

record 'h CDeterministicMN =
  internalId :: "64 word"
  proTxHash :: 'h

text \<open>
  The fields of \<open>Consensus::LLMQParams\<close> that the functions below read. \<open>size\<close> is an
  \<open>int\<close> in the initialiser of \<open>GetLLMQParams\<close>.
\<close>

record LLMQParams =
  params_type :: llmq_type
  params_size :: int
  params_minSize :: int

datatype error = DivisionByZero | NullDereference

section \<open>Watch connections (quorums\_utils.cpp, CalcDeterministicWatchConnections)\<close>

text \<open>
  The two function-local statics of \<open>CalcDeterministicWatchConnections\<close>: the seed and the
  flag that says whether it has been drawn.
\<close>

record 'h watch_seed =
  qwatchConnectionSeed :: 'h
  qwatchConnectionSeedGenerated :: bool

text \<open>
  The body of the \<open>for\<close> loop, run for the remaining number of iterations. The hash
  \<open>SerializeHash(std::make_pair(rnd, std::make_pair(llmqType, blockHash)))\<close> and
  \<open>uint256::GetUint64(0)\<close> are not part of the sources at hand and are parameters.
  The index is the unsigned 64-bit remainder; a zero \<open>memberCount\<close> is a division by zero.
\<close>

fun watch_loop ::
  "('h \<times> llmq_type \<times> 'h \<Rightarrow> 'h) \<Rightarrow> ('h \<Rightarrow> 64 word) \<Rightarrow> llmq_type \<Rightarrow> 'h \<Rightarrow> nat \<Rightarrow> nat \<Rightarrow> 'h \<Rightarrow> nat set
     \<Rightarrow> error + nat set" where
  "watch_loop SerializeHash GetUint64 llmqType bh memberCount 0 rnd result = Inr result"
| "watch_loop SerializeHash GetUint64 llmqType bh memberCount (Suc c) rnd result =
     (let rnd' = SerializeHash (rnd, (llmqType, bh)) in
      if memberCount = 0 then Inl DivisionByZero
      else watch_loop SerializeHash GetUint64 llmqType bh memberCount c rnd'
             (insert (unat (GetUint64 rnd') mod memberCount) result))"

text \<open>
  \<open>GetRandHash()\<close> is the value \<open>fresh\<close> the random source would return; it is used only
  when the seed has not been generated yet.
\<close>

definition CalcDeterministicWatchConnections ::
  "('h \<times> llmq_type \<times> 'h \<Rightarrow> 'h) \<Rightarrow> ('h \<Rightarrow> 64 word) \<Rightarrow> 'h \<Rightarrow> 'h watch_seed
     \<Rightarrow> llmq_type \<Rightarrow> 'h CBlockIndex \<Rightarrow> nat \<Rightarrow> nat \<Rightarrow> (error + nat set) \<times> 'h watch_seed" where
  "CalcDeterministicWatchConnections SerializeHash GetUint64 fresh st llmqType pQuorumBaseBlockIndex
       memberCount connectionCount =
     (let st' = (if \<not> qwatchConnectionSeedGenerated st
                 then st\<lparr>qwatchConnectionSeed := fresh, qwatchConnectionSeedGenerated := True\<rparr>
                 else st)
      in (watch_loop SerializeHash GetUint64 llmqType (blockHash pQuorumBaseBlockIndex)
            memberCount connectionCount (qwatchConnectionSeed st') {}, st'))"

section \<open>Sporks (quorums\_utils.cpp, EvalSpork)\<close>

text \<open>
  The spork values come from the spork manager and the two quorum-type constants from the
  consensus parameters; neither is part of the sources at hand, so they are fields of an
  environment record.
\<close>

record spork_env =
  LLMQ_400_60 :: llmq_type
  LLMQ_400_85 :: llmq_type
  SPORK_21_QUORUM_ALL_CONNECTED :: int
  SPORK_23_QUORUM_POSE :: int

definition EvalSpork :: "spork_env \<Rightarrow> llmq_type \<Rightarrow> int \<Rightarrow> bool" where
  "EvalSpork env llmqType spork_value =
     (if spork_value = 0 then True
      else if spork_value = 1 \<and> llmqType \<noteq> LLMQ_400_60 env \<and> llmqType \<noteq> LLMQ_400_85 env then True
      else False)"

definition IsAllMembersConnectedEnabled :: "spork_env \<Rightarrow> llmq_type \<Rightarrow> bool" where
  "IsAllMembersConnectedEnabled env llmqType = EvalSpork env llmqType (SPORK_21_QUORUM_ALL_CONNECTED env)"

definition IsQuorumPoseEnabled :: "spork_env \<Rightarrow> llmq_type \<Rightarrow> bool" where
  "IsQuorumPoseEnabled env llmqType = EvalSpork env llmqType (SPORK_23_QUORUM_POSE env)"

section \<open>Connection planner (quorums\_utils.cpp)\<close>

text \<open>
  \<open>SerializeHash(std::make_tuple(x, y, z))\<close> is the parameter \<open>SerializeHash\<close> on triples.
\<close>

definition DeterministicOutboundConnection ::
  "('h \<times> 'h \<times> 'h \<Rightarrow> 'h::linorder) \<Rightarrow> 'h \<Rightarrow> 'h \<Rightarrow> 'h" where
  "DeterministicOutboundConnection SerializeHash proTxHash1 proTxHash2 =
     (let (h1, h2) =
        (if proTxHash1 < proTxHash2
         then (SerializeHash (proTxHash1, proTxHash2, proTxHash1),
               SerializeHash (proTxHash1, proTxHash2, proTxHash2))
         else (SerializeHash (proTxHash2, proTxHash1, proTxHash1),
               SerializeHash (proTxHash2, proTxHash1, proTxHash2)))
      in if h1 < h2 then proTxHash1 else proTxHash2)"

text \<open>
  The \<open>while\<close> loop of the lambda \<open>calcOutbound\<close>. The condition first halves \<open>gap_max\<close>
  (the assignment \<open>gap_max >>= 1\<close> is evaluated on every test) and continues when the halved
  value is non-zero or \<open>k \<le> 1\<close>. The lambda is only called with \<open>i < mns.size()\<close>, so
  \<open>(int)mns.size() - 1\<close> is not negative and the three counters are natural numbers.
\<close>

function calcOutbound_loop ::
  "'h CDeterministicMN list \<Rightarrow> nat \<Rightarrow> 'h \<Rightarrow> nat \<Rightarrow> nat \<Rightarrow> nat \<Rightarrow> 'h set \<Rightarrow> 'h set" where
  "calcOutbound_loop mns i proTxHash' gap gap_max k r =
     (let gap_max' = gap_max div 2 in
      if gap_max' \<noteq> 0 \<or> k \<le> 1 then
        (let idx = (i + gap) mod length mns;
             otherDmn = mns ! idx
         in if proTxHash otherDmn = proTxHash'
            then calcOutbound_loop mns i proTxHash' (gap * 2) gap_max' (k + 1) r
            else calcOutbound_loop mns i proTxHash' (gap * 2) gap_max' (k + 1)
                   (insert (proTxHash otherDmn) r))
      else r)"
  by pat_completeness auto
termination
  by (relation "measure (\<lambda>(mns, i, p, gap, gap_max, k, r). gap_max + (2 - k))") auto

definition calcOutbound :: "'h CDeterministicMN list \<Rightarrow> nat \<Rightarrow> 'h \<Rightarrow> 'h set" where
  "calcOutbound mns i proTxHash' = calcOutbound_loop mns i proTxHash' 1 (length mns - 1) 0 {}"

text \<open>
  The member list \<open>mns\<close> is the value \<open>GetAllQuorumMembers(llmqParams, pQuorumBaseBlockIndex)\<close>
  returns at the call. The outer \<open>for\<close> loop runs over the indices \<open>0 .. mns.size() - 1\<close>.
\<close>

definition relay_step ::
  "'h CDeterministicMN list \<Rightarrow> 'h \<Rightarrow> bool \<Rightarrow> 'h set \<Rightarrow> nat \<Rightarrow> 'h set" where
  "relay_step mns forMember onlyOutbound result i =
     (let dmn = mns ! i in
      if proTxHash dmn = forMember then result \<union> calcOutbound mns i (proTxHash dmn)
      else if \<not> onlyOutbound then
        (let r = calcOutbound mns i (proTxHash dmn) in
         if forMember \<in> r then insert (proTxHash dmn) result else result)
      else result)"

definition GetQuorumRelayMembers :: "'h CDeterministicMN list \<Rightarrow> 'h \<Rightarrow> bool \<Rightarrow> 'h set" where
  "GetQuorumRelayMembers mns forMember onlyOutbound =
     foldl (relay_step mns forMember onlyOutbound) {} [0..<length mns]"

fun connections_loop ::
  "('h \<times> 'h \<times> 'h \<Rightarrow> 'h::linorder) \<Rightarrow> 'h \<Rightarrow> bool \<Rightarrow> 'h CDeterministicMN list \<Rightarrow> 'h set \<Rightarrow> 'h set" where
  "connections_loop SerializeHash forMember onlyOutbound [] result = result"
| "connections_loop SerializeHash forMember onlyOutbound (dmn # mns) result =
     (if proTxHash dmn = forMember
      then connections_loop SerializeHash forMember onlyOutbound mns result
      else (let deterministicOutbound =
                  DeterministicOutboundConnection SerializeHash forMember (proTxHash dmn)
            in if \<not> onlyOutbound \<or> deterministicOutbound = proTxHash dmn
               then connections_loop SerializeHash forMember onlyOutbound mns
                      (insert (proTxHash dmn) result)
               else connections_loop SerializeHash forMember onlyOutbound mns result))"

definition GetQuorumConnections ::
  "spork_env \<Rightarrow> ('h \<times> 'h \<times> 'h \<Rightarrow> 'h::linorder) \<Rightarrow> llmq_type \<Rightarrow> 'h CDeterministicMN list \<Rightarrow> 'h \<Rightarrow> bool
     \<Rightarrow> 'h set" where
  "GetQuorumConnections env SerializeHash llmqType mns forMember onlyOutbound =
     (if IsAllMembersConnectedEnabled env llmqType
      then connections_loop SerializeHash forMember onlyOutbound mns {}
      else GetQuorumRelayMembers mns forMember onlyOutbound)"

section \<open>Declaring connections (quorums\_utils.cpp, EnsureQuorumConnections)\<close>

text \<open>
  The connection manager is outside the sources at hand; the functions below only declare
  sets to it. The model records the calls made on it, in order. The debug logging, and the
  query \<open>HasMasternodeQuorumNodes\<close> that only guards it, have no effect on the calls.
\<close>

datatype 'h connman_call =
    SetMasternodeQuorumNodes llmq_type 'h "'h set"
  | SetMasternodeQuorumRelayMembers llmq_type 'h "'h set"
  | AddPendingProbeConnections "'h set"

definition declare_connections ::
  "llmq_type \<Rightarrow> 'h \<Rightarrow> 'h set \<Rightarrow> 'h set \<Rightarrow> 'h connman_call list" where
  "declare_connections llmqType bh connections relayMembers =
     (if connections \<noteq> {} then [SetMasternodeQuorumNodes llmqType bh connections] else [])
     @ (if relayMembers \<noteq> {} then [SetMasternodeQuorumRelayMembers llmqType bh relayMembers] else [])"

text \<open>
  \<open>members\<close> is the value of \<open>GetAllQuorumMembers\<close> at the call, \<open>watchEnabled\<close> the value of
  \<open>IsWatchQuorumsEnabled()\<close>. The result is the returned flag with the calls made on the
  connection manager, or the error of the watch computation, and the state of the seed.
\<close>

definition EnsureQuorumConnections ::
  "spork_env \<Rightarrow> ('h \<times> 'h \<times> 'h \<Rightarrow> 'h::linorder) \<Rightarrow> ('h \<times> llmq_type \<times> 'h \<Rightarrow> 'h) \<Rightarrow> ('h \<Rightarrow> 64 word)
     \<Rightarrow> 'h \<Rightarrow> bool \<Rightarrow> 'h watch_seed
     \<Rightarrow> LLMQParams \<Rightarrow> 'h CBlockIndex \<Rightarrow> 'h CDeterministicMN list \<Rightarrow> 'h
     \<Rightarrow> (error + bool \<times> 'h connman_call list) \<times> 'h watch_seed" where
  "EnsureQuorumConnections env SerializeHash3 SerializeHashW GetUint64 fresh watchEnabled st
       llmqParams pQuorumBaseBlockIndex members myProTxHash =
     (let isMember = (find (\<lambda>dmn. proTxHash dmn = myProTxHash) members \<noteq> None) in
      if \<not> isMember \<and> \<not> watchEnabled then (Inr (False, []), st)
      else if isMember then
        (let connections = GetQuorumConnections env SerializeHash3 (params_type llmqParams)
                             members myProTxHash True;
             relayMembers = GetQuorumRelayMembers members myProTxHash True
         in (Inr (True, declare_connections (params_type llmqParams)
                          (blockHash pQuorumBaseBlockIndex) connections relayMembers), st))
      else
        (case CalcDeterministicWatchConnections SerializeHashW GetUint64 fresh st
                (params_type llmqParams) pQuorumBaseBlockIndex (length members) 1 of
           (Inl e, st') \<Rightarrow> (Inl e, st')
         | (Inr cindexes, st') \<Rightarrow>
             (let connections = (\<lambda>idx. proTxHash (members ! idx)) ` cindexes;
                  relayMembers = connections
              in (Inr (True, declare_connections (params_type llmqParams)
                               (blockHash pQuorumBaseBlockIndex) connections relayMembers), st'))))"

section \<open>Probe connections (quorums\_utils.cpp, AddQuorumProbeConnections)\<close>

text \<open>
  The meta information of a masternode: the two time stamps \<open>CMasternodeMetaInfo::ToJson\<close>
  subtracts from the current time, both \<open>int64_t\<close> counts of seconds.
  \<open>CMasternodeMetaMan::GetMetaInfo\<close> returns the stored entry, or creates one when \<open>fCreate\<close>
  is set; \<open>newInfo\<close> stands for \<open>std::make_shared<CMasternodeMetaInfo>(proTxHash)\<close>, whose
  constructor is not part of the sources at hand.
\<close>

record CMasternodeMetaInfo =
  lastOutboundAttempt :: "64 word"
  lastOutboundSuccess :: "64 word"

definition GetMetaInfo ::
  "('h \<Rightarrow> CMasternodeMetaInfo) \<Rightarrow> ('h \<rightharpoonup> CMasternodeMetaInfo) \<Rightarrow> 'h \<Rightarrow> bool
     \<Rightarrow> CMasternodeMetaInfo option \<times> ('h \<rightharpoonup> CMasternodeMetaInfo)" where
  "GetMetaInfo newInfo metaInfos proTxHash' fCreate =
     (case metaInfos proTxHash' of
        Some info \<Rightarrow> (Some info, metaInfos)
      | None \<Rightarrow>
          if \<not> fCreate then (None, metaInfos)
          else (let info = newInfo proTxHash' in (Some info, metaInfos(proTxHash' \<mapsto> info))))"

text \<open>The entry \<open>GetMetaInfo\<close> yields for a hash when it may create one.\<close>

definition info_of ::
  "('h \<Rightarrow> CMasternodeMetaInfo) \<Rightarrow> ('h \<rightharpoonup> CMasternodeMetaInfo) \<Rightarrow> 'h \<Rightarrow> CMasternodeMetaInfo" where
  "info_of newInfo metaInfos p = (case metaInfos p of Some info \<Rightarrow> info | None \<Rightarrow> newInfo p)"

text \<open>
  The loop over the members. \<open>GetMetaInfo\<close> is called with its default argument
  \<open>fCreate = true\<close>; the result is dereferenced without a check. \<open>curTime\<close> and
  \<open>lastOutbound\<close> are \<open>int64_t\<close> values: the difference \<open>curTime - lastOutbound\<close> is the
  64-bit difference, wrapping around in two's complement, read as a signed number and
  compared with \<open>10 * 60\<close>.
\<close>

fun probe_loop ::
  "('h \<Rightarrow> CMasternodeMetaInfo) \<Rightarrow> 64 word \<Rightarrow> 'h \<Rightarrow> 'h CDeterministicMN list
     \<Rightarrow> ('h \<rightharpoonup> CMasternodeMetaInfo) \<Rightarrow> 'h set
     \<Rightarrow> error + 'h set \<times> ('h \<rightharpoonup> CMasternodeMetaInfo)" where
  "probe_loop newInfo curTime myProTxHash [] metaInfos probeConnections =
     Inr (probeConnections, metaInfos)"
| "probe_loop newInfo curTime myProTxHash (dmn # members) metaInfos probeConnections =
     (if proTxHash dmn = myProTxHash
      then probe_loop newInfo curTime myProTxHash members metaInfos probeConnections
      else (case GetMetaInfo newInfo metaInfos (proTxHash dmn) True of
              (None, metaInfos') \<Rightarrow> Inl NullDereference
            | (Some info, metaInfos') \<Rightarrow>
                (let lastOutbound = lastOutboundSuccess info in
                 if sint (curTime - lastOutbound) > 10 * 60
                 then probe_loop newInfo curTime myProTxHash members metaInfos'
                        (insert (proTxHash dmn) probeConnections)
                 else probe_loop newInfo curTime myProTxHash members metaInfos' probeConnections)))"

text \<open>
  \<open>curTime\<close> is the \<open>int64_t\<close> count of seconds of the adjusted time, \<open>members\<close> the value
  of \<open>GetAllQuorumMembers\<close> at the call. The result is the list of calls made on the
  connection manager and the meta information as the lookups leave it.
\<close>

definition AddQuorumProbeConnections ::
  "spork_env \<Rightarrow> ('h \<Rightarrow> CMasternodeMetaInfo) \<Rightarrow> 64 word \<Rightarrow> ('h \<rightharpoonup> CMasternodeMetaInfo)
     \<Rightarrow> LLMQParams \<Rightarrow> 'h CDeterministicMN list \<Rightarrow> 'h
     \<Rightarrow> error + 'h connman_call list \<times> ('h \<rightharpoonup> CMasternodeMetaInfo)" where
  "AddQuorumProbeConnections env newInfo curTime metaInfos llmqParams members myProTxHash =
     (if \<not> IsQuorumPoseEnabled env (params_type llmqParams) then Inr ([], metaInfos)
      else (case probe_loop newInfo curTime myProTxHash members metaInfos {} of
              Inl e \<Rightarrow> Inl e
            | Inr (probeConnections, metaInfos') \<Rightarrow>
                Inr (if probeConnections \<noteq> {} then [AddPendingProbeConnections probeConnections]
                     else [], metaInfos')))"

text \<open>
  The age of a time stamp, as a difference of integers, fits an \<open>int64_t\<close>: the 64-bit
  subtraction does not overflow. This holds for every member the loop looks at whenever the
  current time and the time stamps are counts of seconds that are not negative.
\<close>

definition age_in_range :: "64 word \<Rightarrow> 64 word \<Rightarrow> bool" where
  "age_in_range curTime t = (- (2 ^ 63) \<le> sint curTime - sint t \<and> sint curTime - sint t < 2 ^ 63)"

definition ages_in_range ::
  "('h \<Rightarrow> CMasternodeMetaInfo) \<Rightarrow> ('h \<rightharpoonup> CMasternodeMetaInfo) \<Rightarrow> 64 word
     \<Rightarrow> 'h CDeterministicMN list \<Rightarrow> 'h \<Rightarrow> bool" where
  "ages_in_range newInfo metaInfos curTime members myProTxHash =
     (\<forall>d\<in>set members. proTxHash d \<noteq> myProTxHash \<longrightarrow>
        age_in_range curTime (lastOutboundSuccess (info_of newInfo metaInfos (proTxHash d))))"

section \<open>Membership calculator (quorums\_utils.cpp, GetAllQuorumMembers)\<close>

text \<open>
  The class \<open>unordered_lru_cache\<close> and \<open>InitQuorumsCache\<close> are not part of the sources at
  hand. The spec has a bounded LRU cache per quorum type, keyed by the base block hash, that
  evicts the oldest entry when it exceeds a fixed bound. A cache is the list of its entries,
  the most recently used first.
\<close>

type_synonym ('k, 'v) lru_cache = "('k \<times> 'v) list"

text \<open>
  Modelled from the spec: \<open>unordered_lru_cache::get\<close>, missing from the sources. A hit
  returns the cached value and makes the entry the most recently used one.
\<close>

definition lru_get :: "('k, 'v) lru_cache \<Rightarrow> 'k \<Rightarrow> 'v option \<times> ('k, 'v) lru_cache" where
  "lru_get c k =
     (case map_of c k of
        None \<Rightarrow> (None, c)
      | Some v \<Rightarrow> (Some v, (k, v) # filter (\<lambda>e. fst e \<noteq> k) c))"

text \<open>
  Modelled from the spec: \<open>unordered_lru_cache::insert\<close>, missing from the sources. The
  entry becomes the most recently used one and the oldest entries beyond the bound are evicted.
\<close>

definition lru_insert :: "nat \<Rightarrow> ('k, 'v) lru_cache \<Rightarrow> 'k \<Rightarrow> 'v \<Rightarrow> ('k, 'v) lru_cache" where
  "lru_insert bound c k v = take bound ((k, v) # filter (\<lambda>e. fst e \<noteq> k) c)"

text \<open>
  Modelled from the spec: \<open>InitQuorumsCache\<close>, missing from the sources. One empty cache
  per configured quorum type.
\<close>

definition InitQuorumsCache :: "llmq_type list \<Rightarrow> (llmq_type \<times> ('k, 'v) lru_cache) list" where
  "InitQuorumsCache llmqs = map (\<lambda>t. (t, [])) llmqs"

text \<open>\<open>mapQuorumMembers[type]\<close>: the cache of a type, an empty one if the map has none.\<close>

definition cache_of :: "(llmq_type \<times> ('k, 'v) lru_cache) list \<Rightarrow> llmq_type \<Rightarrow> ('k, 'v) lru_cache" where
  "cache_of m t = (case map_of m t of None \<Rightarrow> [] | Some c \<Rightarrow> c)"

text \<open>
  The collaborators of \<open>GetAllQuorumMembers\<close>: the configured quorum types and the cache
  bounds (for \<open>InitQuorumsCache\<close>), the registry \<open>deterministicMNManager->GetListForBlock\<close>,
  the hash of the pair (type, block hash), and \<open>CDeterministicMNList::CalculateQuorum\<close>, of
  which the sources at hand have the declaration only. \<open>'l\<close> is the type of a masternode list.
\<close>

record ('h, 'l) registry =
  llmqs :: "llmq_type list"
  cache_bound :: "llmq_type \<Rightarrow> nat"
  GetListForBlock :: "'h CBlockIndex \<Rightarrow> 'l"
  SerializeHash_modifier :: "llmq_type \<times> 'h \<Rightarrow> 'h"
  CalculateQuorum :: "'l \<Rightarrow> nat \<Rightarrow> 'h \<Rightarrow> 'h CDeterministicMN list"

text \<open>
  The function with the static \<open>mapQuorumMembers\<close> as explicit state. \<open>llmqParams.size\<close> is
  an \<open>int\<close> passed for a \<open>size_t\<close>.
\<close>

definition GetAllQuorumMembers ::
  "('h, 'l) registry \<Rightarrow> (llmq_type \<times> ('h, 'h CDeterministicMN list) lru_cache) list
     \<Rightarrow> LLMQParams \<Rightarrow> 'h CBlockIndex
     \<Rightarrow> 'h CDeterministicMN list \<times> (llmq_type \<times> ('h, 'h CDeterministicMN list) lru_cache) list" where
  "GetAllQuorumMembers reg mapQuorumMembers llmqParams pQuorumBaseBlockIndex =
     (let m = (if mapQuorumMembers = [] then InitQuorumsCache (llmqs reg) else mapQuorumMembers);
          t = params_type llmqParams;
          bh = blockHash pQuorumBaseBlockIndex
      in case lru_get (cache_of m t) bh of
           (Some quorumMembers, c) \<Rightarrow> (quorumMembers, AList.update t c m)
         | (None, c) \<Rightarrow>
             (let m' = AList.update t c m;
                  allMns = GetListForBlock reg pQuorumBaseBlockIndex;
                  modifier = SerializeHash_modifier reg (t, bh);
                  quorumMembers = CalculateQuorum reg allMns (nat (params_size llmqParams mod 2 ^ 64)) modifier
              in (quorumMembers,
                  AList.update t (lru_insert (cache_bound reg t) (cache_of m' t) bh quorumMembers) m')))"

text \<open>A run of calls, each on the cache the previous one left; the lists returned, in order.\<close>

fun GetAllQuorumMembers_run ::
  "('h, 'l) registry \<Rightarrow> (llmq_type \<times> ('h, 'h CDeterministicMN list) lru_cache) list
     \<Rightarrow> (LLMQParams \<times> 'h CBlockIndex) list \<Rightarrow> 'h CDeterministicMN list list" where
  "GetAllQuorumMembers_run reg m [] = []"
| "GetAllQuorumMembers_run reg m ((llmqParams, b) # calls) =
     (case GetAllQuorumMembers reg m llmqParams b of
        (quorumMembers, m') \<Rightarrow> quorumMembers # GetAllQuorumMembers_run reg m' calls)"

text \<open>The uncached computation: the list as a function of snapshot, size and modifier.\<close>

definition members_for ::
  "('h, 'l) registry \<Rightarrow> LLMQParams \<Rightarrow> 'h CBlockIndex \<Rightarrow> 'h CDeterministicMN list" where
  "members_for reg llmqParams b =
     CalculateQuorum reg (GetListForBlock reg b) (nat (params_size llmqParams mod 2 ^ 64))
       (SerializeHash_modifier reg (params_type llmqParams, blockHash b))"

text \<open>
  A set of calls is consistent when calls for the same quorum type and base block hash come
  with the same size parameter and the same registry snapshot. The cache invariant: every
  cached list is the uncached result of a call of the set for that type and hash.
\<close>

definition consistent_calls :: "('h, 'l) registry \<Rightarrow> (LLMQParams \<times> 'h CBlockIndex) set \<Rightarrow> bool" where
  "consistent_calls reg S =
     (\<forall>(p, b)\<in>S. \<forall>(p', b')\<in>S.
        params_type p = params_type p' \<and> blockHash b = blockHash b' \<longrightarrow>
        params_size p = params_size p' \<and> GetListForBlock reg b = GetListForBlock reg b')"

definition cache_ok ::
  "('h, 'l) registry \<Rightarrow> (LLMQParams \<times> 'h CBlockIndex) set
     \<Rightarrow> (llmq_type \<times> ('h, 'h CDeterministicMN list) lru_cache) list \<Rightarrow> bool" where
  "cache_ok reg S m =
     (\<forall>t k v. (k, v) \<in> set (cache_of m t) \<longrightarrow>
        (\<exists>(p, b)\<in>S. params_type p = t \<and> blockHash b = k \<and> v = members_for reg p b))"

section \<open>Pending-message buffer (quorums\_dkgsessionhandler.h, CDKGPendingMessages)\<close>

text \<open>
  The data members of the class as the header declares them: the cap per node, the queue of
  (sender, bytes) pairs, the counters per node and the set of digests seen. A \<open>NodeId\<close> is
  a signed integer; a message is a byte string; \<open>'h\<close> is the type of a digest.
\<close>

type_synonym NodeId = int
type_synonym bytes = "8 word list"

record 'h CDKGPendingMessages =
  maxMessagesPerNode :: nat
  pendingMessages :: "(NodeId \<times> bytes) list"
  messagesPerNode :: "NodeId \<rightharpoonup> nat"
  seenMessages :: "'h set"

text \<open>The constructor: the cap is set, queue, counters and seen set start empty.\<close>

definition new_CDKGPendingMessages :: "nat \<Rightarrow> 'h CDKGPendingMessages" where
  "new_CDKGPendingMessages n =
     \<lparr>maxMessagesPerNode = n, pendingMessages = [], messagesPerNode = Map.empty, seenMessages = {}\<rparr>"

text \<open>The counter of a node; a node without an entry has counter 0.\<close>

definition counter_of :: "(NodeId \<rightharpoonup> nat) \<Rightarrow> NodeId \<Rightarrow> nat" where
  "counter_of counters p = (case counters p of None \<Rightarrow> 0 | Some c \<Rightarrow> c)"

definition per_peer_count :: "'h CDKGPendingMessages \<Rightarrow> NodeId \<Rightarrow> nat" where
  "per_peer_count buf p = counter_of (messagesPerNode buf) p"

text \<open>
  Modelled from the spec: the body of \<open>PushPendingMessage\<close>, which the header only
  declares. The spec (section 4.3): push rejects when the counter of the peer has reached the
  cap, computes the digest \<open>H\<close> of the bytes and rejects when it has been seen, and otherwise
  appends the message, increments the counter and inserts the digest.
\<close>

definition PushPendingMessage ::
  "(bytes \<Rightarrow> 'h) \<Rightarrow> 'h CDKGPendingMessages \<Rightarrow> NodeId \<Rightarrow> bytes \<Rightarrow> 'h CDKGPendingMessages" where
  "PushPendingMessage H buf from' vRecv =
     (if per_peer_count buf from' \<ge> maxMessagesPerNode buf then buf
      else (let h = H vRecv in
            if h \<in> seenMessages buf then buf
            else buf\<lparr>pendingMessages := pendingMessages buf @ [(from', vRecv)],
                      messagesPerNode := (messagesPerNode buf)(from' \<mapsto> per_peer_count buf from' + 1),
                      seenMessages := insert h (seenMessages buf)\<rparr>))"

text \<open>
  Modelled from the spec: the counters after a pop, which "decrements counters accordingly":
  one less for the sender of each item popped.
\<close>

fun decrement_counters :: "(NodeId \<rightharpoonup> nat) \<Rightarrow> (NodeId \<times> bytes) list \<Rightarrow> (NodeId \<rightharpoonup> nat)" where
  "decrement_counters counters [] = counters"
| "decrement_counters counters ((p, m) # ret) =
     decrement_counters (counters(p \<mapsto> counter_of counters p - 1)) ret"

text \<open>
  Modelled from the spec: the body of \<open>PopPendingMessages\<close>, which the header only
  declares. The spec: pop returns up to \<open>n\<close> items in FIFO order and decrements the counters,
  but does not remove entries from the seen set.
\<close>

definition PopPendingMessages ::
  "'h CDKGPendingMessages \<Rightarrow> nat \<Rightarrow> (NodeId \<times> bytes) list \<times> 'h CDKGPendingMessages" where
  "PopPendingMessages buf maxCount =
     (let ret = take maxCount (pendingMessages buf)
      in (ret, buf\<lparr>pendingMessages := drop maxCount (pendingMessages buf),
                     messagesPerNode := decrement_counters (messagesPerNode buf) ret\<rparr>))"

text \<open>
  Modelled from the spec: the body of \<open>HasSeen\<close>, which the header only declares: whether
  a digest is in the seen set.
\<close>

definition HasSeen :: "'h CDKGPendingMessages \<Rightarrow> 'h \<Rightarrow> bool" where
  "HasSeen buf hash = (hash \<in> seenMessages buf)"

text \<open>
  Modelled from the spec: the body of \<open>Clear\<close>, which the header only declares: it
  empties queue, counters and seen set.
\<close>

definition Clear :: "'h CDKGPendingMessages \<Rightarrow> 'h CDKGPendingMessages" where
  "Clear buf = buf\<lparr>pendingMessages := [], messagesPerNode := Map.empty, seenMessages := {}\<rparr>"

text \<open>Sequences of operations on one buffer.\<close>

datatype buffer_op = Push NodeId bytes | Pop nat | ClearAll

fun apply_op :: "(bytes \<Rightarrow> 'h) \<Rightarrow> 'h CDKGPendingMessages \<Rightarrow> buffer_op \<Rightarrow> 'h CDKGPendingMessages" where
  "apply_op H buf (Push p m) = PushPendingMessage H buf p m"
| "apply_op H buf (Pop n) = snd (PopPendingMessages buf n)"
| "apply_op H buf ClearAll = Clear buf"

definition apply_ops :: "(bytes \<Rightarrow> 'h) \<Rightarrow> 'h CDKGPendingMessages \<Rightarrow> buffer_op list \<Rightarrow> 'h CDKGPendingMessages" where
  "apply_ops H buf ops = foldl (apply_op H) buf ops"

section \<open>Phases (quorums\_dkgsessionhandler.h, QuorumPhase and CDKGSessionHandler)\<close>

text \<open>The enumeration with the values the header gives its members.\<close>

datatype QuorumPhase =
    QuorumPhase_None
  | QuorumPhase_Initialized
  | QuorumPhase_Contribute
  | QuorumPhase_Complain
  | QuorumPhase_Justify
  | QuorumPhase_Commit
  | QuorumPhase_Finalize
  | QuorumPhase_Idle

fun phase_value :: "QuorumPhase \<Rightarrow> int" where
  "phase_value QuorumPhase_None = -1"
| "phase_value QuorumPhase_Initialized = 1"
| "phase_value QuorumPhase_Contribute = 2"
| "phase_value QuorumPhase_Complain = 3"
| "phase_value QuorumPhase_Justify = 4"
| "phase_value QuorumPhase_Commit = 5"
| "phase_value QuorumPhase_Finalize = 6"
| "phase_value QuorumPhase_Idle = 7"

text \<open>
  What can happen to the scheduler: a new quorum begins, \<open>InitNewQuorum\<close> fails, the wait
  for the next phase ends, or the session is aborted.
\<close>

datatype scheduler_event = NewQuorum | InitFailed | NextPhase | Abort

text \<open>
  Modelled from the spec: the phase transitions of the scheduler, whose implementation
  (the member functions of \<open>CDKGSessionHandler\<close>) is not part of the sources at hand; the
  header declares the class and starts \<open>phase\<close> at \<open>QuorumPhase_Idle\<close>. The spec (section
  4.5): the scheduler waits for a new quorum (Idle), initialises it (Initialized) and returns
  to idle if there are too few members or the node is not interested; it then runs the
  phases Contribute, Complain, Justify, Commit, each followed by a wait for the next phase,
  finalizes and returns to idle; a reorganisation or a changed quorum hash aborts the session
  at any point and re-enters the wait for a new quorum (Invariant C).
\<close>

fun phase_step :: "QuorumPhase \<Rightarrow> scheduler_event \<Rightarrow> QuorumPhase option" where
  "phase_step QuorumPhase_Idle NewQuorum = Some QuorumPhase_Initialized"
| "phase_step QuorumPhase_Initialized InitFailed = Some QuorumPhase_Idle"
| "phase_step QuorumPhase_Initialized NextPhase = Some QuorumPhase_Contribute"
| "phase_step QuorumPhase_Contribute NextPhase = Some QuorumPhase_Complain"
| "phase_step QuorumPhase_Complain NextPhase = Some QuorumPhase_Justify"
| "phase_step QuorumPhase_Justify NextPhase = Some QuorumPhase_Commit"
| "phase_step QuorumPhase_Commit NextPhase = Some QuorumPhase_Finalize"
| "phase_step QuorumPhase_Finalize NextPhase = Some QuorumPhase_Idle"
| "phase_step QuorumPhase_Initialized Abort = Some QuorumPhase_Idle"
| "phase_step QuorumPhase_Contribute Abort = Some QuorumPhase_Idle"
| "phase_step QuorumPhase_Complain Abort = Some QuorumPhase_Idle"
| "phase_step QuorumPhase_Justify Abort = Some QuorumPhase_Idle"
| "phase_step QuorumPhase_Commit Abort = Some QuorumPhase_Idle"
| "phase_step QuorumPhase_Finalize Abort = Some QuorumPhase_Idle"
| "phase_step p e = None"

text \<open>
  Modelled from the spec: the phases an observer sees while the scheduler handles a sequence
  of events, starting in phase \<open>p\<close>; an event that is not enabled in the current phase
  changes nothing.
\<close>

fun observed_phases :: "QuorumPhase \<Rightarrow> scheduler_event list \<Rightarrow> QuorumPhase list" where
  "observed_phases p [] = [p]"
| "observed_phases p (e # es) =
     (case phase_step p e of
        None \<Rightarrow> observed_phases p es
      | Some q \<Rightarrow> p # observed_phases q es)"

text \<open>
  Modelled from the spec: the order Idle, Initialized, Contribute, Complain, Justify, Commit,
  Finalize, Idle of its phase-monotonicity property, as the phase that follows a phase.
\<close>

fun next_phase :: "QuorumPhase \<Rightarrow> QuorumPhase" where
  "next_phase QuorumPhase_Idle = QuorumPhase_Initialized"
| "next_phase QuorumPhase_Initialized = QuorumPhase_Contribute"
| "next_phase QuorumPhase_Contribute = QuorumPhase_Complain"
| "next_phase QuorumPhase_Complain = QuorumPhase_Justify"
| "next_phase QuorumPhase_Justify = QuorumPhase_Commit"
| "next_phase QuorumPhase_Commit = QuorumPhase_Finalize"
| "next_phase QuorumPhase_Finalize = QuorumPhase_Idle"
| "next_phase QuorumPhase_None = QuorumPhase_None"

text \<open>
  A transition is forward when it starts a session from Idle, or, inside a session, goes to
  the next phase of the order or back to Idle (the end of the session), and in both cases
  to a larger value of the enumeration.
\<close>

definition forward :: "QuorumPhase \<Rightarrow> QuorumPhase \<Rightarrow> bool" where
  "forward p q =
     (if p = QuorumPhase_Idle then q = QuorumPhase_Initialized
      else (q = next_phase p \<or> q = QuorumPhase_Idle) \<and> phase_value p < phase_value q)"

section \<open>Concrete inputs used by the examples\<close>

text \<open>
  A ring of nine members with the hashes 10, 20, ..., 90; a stand-in for the triple hash that
  returns its third component; a stand-in for the watch hash; the sporks switched on (value 0)
  and switched off.
\<close>

definition ring9 :: "nat CDeterministicMN list" where
  "ring9 = map (\<lambda>i. \<lparr>internalId = of_nat i, proTxHash = 10 * (i + 1)\<rparr>) [0..<9]"

definition third_of_triple :: "nat \<times> nat \<times> nat \<Rightarrow> nat" where
  "third_of_triple t = snd (snd t)"

definition sum_hash :: "nat \<times> llmq_type \<times> nat \<Rightarrow> nat" where
  "sum_hash t = fst t + unat (fst (snd t)) + snd (snd t)"

definition low64 :: "nat \<Rightarrow> 64 word" where
  "low64 h = of_nat h"

definition sporks_on :: spork_env where
  "sporks_on = \<lparr>LLMQ_400_60 = 2, LLMQ_400_85 = 3,
                 SPORK_21_QUORUM_ALL_CONNECTED = 0, SPORK_23_QUORUM_POSE = 0\<rparr>"

definition sporks_off :: spork_env where
  "sporks_off = \<lparr>LLMQ_400_60 = 2, LLMQ_400_85 = 3,
                  SPORK_21_QUORUM_ALL_CONNECTED = 4070908800, SPORK_23_QUORUM_POSE = 4070908800\<rparr>"

definition block24 :: "nat CBlockIndex" where
  "block24 = \<lparr>blockHash = 5, nHeight = 24\<rparr>"

definition seed_unset :: "nat watch_seed" where
  "seed_unset = \<lparr>qwatchConnectionSeed = 0, qwatchConnectionSeedGenerated = False\<rparr>"

definition params9 :: LLMQParams where
  "params9 = \<lparr>params_type = 1, params_size = 3, params_minSize = 2\<rparr>"

definition block48 :: "nat CBlockIndex" where
  "block48 = \<lparr>blockHash = 6, nHeight = 48\<rparr>"

definition block72 :: "nat CBlockIndex" where
  "block72 = \<lparr>blockHash = 7, nHeight = 72\<rparr>"

definition rotate_quorum :: "nat CDeterministicMN list \<Rightarrow> nat \<Rightarrow> nat \<Rightarrow> nat CDeterministicMN list" where
  "rotate_quorum l maxSize modifier = take maxSize (rotate modifier l)"

definition type_plus_hash :: "llmq_type \<times> nat \<Rightarrow> nat" where
  "type_plus_hash th = unat (fst th) + snd th"

definition registry9 :: "(nat, nat CDeterministicMN list) registry" where
  "registry9 = \<lparr>llmqs = [1], cache_bound = (\<lambda>t. 2), GetListForBlock = (\<lambda>b. ring9),
                 SerializeHash_modifier = type_plus_hash, CalculateQuorum = rotate_quorum\<rparr>"

definition calls5 :: "(LLMQParams \<times> nat CBlockIndex) list" where
  "calls5 = [(params9, block24), (params9, block48), (params9, block24), (params9, block72),
             (params9, block24)]"

definition zero_info :: "nat \<Rightarrow> CMasternodeMetaInfo" where
  "zero_info p = \<lparr>lastOutboundAttempt = 0, lastOutboundSuccess = 0\<rparr>"

definition metaInfos2 :: "nat \<rightharpoonup> CMasternodeMetaInfo" where
  "metaInfos2 = [20 \<mapsto> \<lparr>lastOutboundAttempt = 900, lastOutboundSuccess = 900\<rparr>,
                 30 \<mapsto> \<lparr>lastOutboundAttempt = 100, lastOutboundSuccess = 100\<rparr>]"


definition info_int64_min :: "nat \<Rightarrow> CMasternodeMetaInfo" where
  "info_int64_min p = \<lparr>lastOutboundAttempt = 0, lastOutboundSuccess = - (2 ^ 63)\<rparr>"

definition byte_sum :: "bytes \<Rightarrow> nat" where
  "byte_sum m = sum_list (map unat m)"

definition flood4 :: "buffer_op list" where
  "flood4 = [Push 7 [1], Push 7 [2], Push 7 [3], Push 8 [1]]"

definition ops3 :: "buffer_op list" where
  "ops3 = [Push 7 [2], Pop 1, Push 8 [1]]"

definition buffer2 :: "nat CDKGPendingMessages" where
  "buffer2 = new_CDKGPendingMessages 2"

definition events6 :: "scheduler_event list" where
  "events6 = [NewQuorum, NextPhase, NextPhase, Abort, NextPhase, NewQuorum]"

section \<open>Properties\<close>

lemma watch_loop_bound:
  "0 < memberCount \<Longrightarrow> \<forall>x\<in>result. x < memberCount \<Longrightarrow>
   \<exists>S. watch_loop SH G t bh memberCount c rnd result = Inr S \<and> (\<forall>x\<in>S. x < memberCount)"
  by (induction c arbitrary: rnd result) (auto simp: Let_def)

text \<open>
  Claim C10. \<open>CalcDeterministicWatchConnections\<close> has no guard against a zero member count:
  with \<open>memberCount = 0\<close> and at least one connection asked for, the first reduction divides by
  zero. With \<open>memberCount \<ge> 1\<close> the call returns a set, and every index in it is strictly
  below \<open>memberCount\<close>.
\<close>

theorem C10_watch_indices_in_range:
  "(1 \<le> memberCount \<longrightarrow>
      (\<exists>S. fst (CalcDeterministicWatchConnections SH G fresh st t b memberCount connectionCount) = Inr S
          \<and> (\<forall>x\<in>S. x < memberCount)))
   \<and> fst (CalcDeterministicWatchConnections SH G fresh st t b 0 (Suc c)) = Inl DivisionByZero"
proof -
  have "\<exists>S. watch_loop SH G t bh memberCount connectionCount rnd {} = Inr S \<and> (\<forall>x\<in>S. x < memberCount)"
    if "1 \<le> memberCount" for bh rnd
    using watch_loop_bound [of memberCount "{}" SH G t bh connectionCount rnd] that by simp
  then show ?thesis
    by (simp add: CalcDeterministicWatchConnections_def Let_def)
qed

theorem C10_watch_indices_in_range_witness:
  "(1::nat) \<le> 9
   \<and> fst (CalcDeterministicWatchConnections sum_hash low64 7 seed_unset 1 block24 9 2) = Inr {1, 4}
   \<and> (1::nat) < 9 \<and> (4::nat) < 9
   \<and> fst (CalcDeterministicWatchConnections sum_hash low64 7 seed_unset 1 block24 0 (Suc 0))
       = Inl DivisionByZero"
proof -
  have ev: "fst (CalcDeterministicWatchConnections sum_hash low64 7 seed_unset 1 block24 9 2) = Inr {1, 4}"
    by code_simp
  have h: "(1::nat) \<le> 9" by simp
  from C10_watch_indices_in_range [of 9 sum_hash low64 7 seed_unset 1 block24 2 0] h
  obtain S where S: "fst (CalcDeterministicWatchConnections sum_hash low64 7 seed_unset 1 block24 9 2) = Inr S"
    and bound: "\<forall>x\<in>S. x < 9"
    and err: "fst (CalcDeterministicWatchConnections sum_hash low64 7 seed_unset 1 block24 0 (Suc 0))
              = Inl DivisionByZero"
    by blast
  from S ev have "S = {1, 4}" by simp
  with bound have "(1::nat) < 9 \<and> (4::nat) < 9" by simp
  with h ev err show ?thesis by simp
qed

subsection \<open>Ring relay\<close>

declare calcOutbound_loop.simps [simp del]

lemma div_pow2_zero_mono:
  "(m::nat) div 2 ^ k = 0 \<Longrightarrow> k \<le> j \<Longrightarrow> m div 2 ^ j = 0"
proof -
  assume a: "m div 2 ^ k = 0" and b: "k \<le> j"
  from a have "m < 2 ^ k" by (simp add: div_eq_0_iff)
  also from b have "(2::nat) ^ k \<le> 2 ^ j" by (simp add: power_increasing)
  finally show ?thesis by simp
qed

lemma calcOutbound_loop_set:
  "gap = 2 ^ k \<Longrightarrow> gm = (length mns - 1) div 2 ^ k \<Longrightarrow>
   calcOutbound_loop mns i p gap gm k r =
     r \<union> {proTxHash (mns ! ((i + 2 ^ j) mod length mns)) | j.
            k \<le> j \<and> (j \<le> 1 \<or> (length mns - 1) div 2 ^ (j + 1) \<noteq> 0) \<and>
            proTxHash (mns ! ((i + 2 ^ j) mod length mns)) \<noteq> p}"
proof (induction mns i p gap gm k r rule: calcOutbound_loop.induct)
  case (1 mns i p gap gap_max k r)
  let ?n = "length mns"
  let ?cont = "\<lambda>j. j \<le> 1 \<or> (?n - 1) div 2 ^ (j + 1) \<noteq> 0"
  let ?at = "\<lambda>j. proTxHash (mns ! ((i + 2 ^ j) mod ?n))"
  let ?S = "\<lambda>k. {?at j | j. k \<le> j \<and> ?cont j \<and> ?at j \<noteq> p}"
  have gm': "gap_max div 2 = (?n - 1) div 2 ^ (k + 1)"
  proof -
    have "(?n - 1) div 2 ^ (k + 1) = (?n - 1) div (2 ^ k * 2)" by (simp add: mult.commute)
    also have "\<dots> = (?n - 1) div 2 ^ k div 2" by (rule div_mult2_eq)
    finally show ?thesis using "1.prems" by simp
  qed
  show ?case
  proof (cases "?cont k")
    case False
    then have "\<not> ?cont j" if "k \<le> j" for j
      using that div_pow2_zero_mono [of "?n - 1" "k + 1" "j + 1"] by auto
    then have S: "?S k = {}" by auto
    have L: "calcOutbound_loop mns i p gap gap_max k r = r"
      using False gm' by (subst calcOutbound_loop.simps) (auto simp: Let_def)
    show ?thesis unfolding L S by (rule Un_empty_right [symmetric])
  next
    case True
    have split: "?S k = (if ?at k \<noteq> p then {?at k} else {}) \<union> ?S (k + 1)"
    proof -
      have "k \<le> j \<longleftrightarrow> j = k \<or> k + 1 \<le> j" for j by auto
      then show ?thesis using True by (auto 0 3)
    qed
    have c: "gap_max div 2 \<noteq> 0 \<or> k \<le> 1" using True gm' by auto
    show ?thesis
    proof (cases "?at k = p")
      case eq: True
      have "calcOutbound_loop mns i p gap gap_max k r =
            calcOutbound_loop mns i p (gap * 2) (gap_max div 2) (k + 1) r"
        using c eq "1.prems" by (subst calcOutbound_loop.simps) (auto simp: Let_def)
      also have "\<dots> = r \<union> ?S (k + 1)"
        using c eq "1.prems" gm' by (intro "1.IH"(1)) auto
      finally have L: "calcOutbound_loop mns i p gap gap_max k r = r \<union> ?S (k + 1)" .
      have E: "?S k = ?S (k + 1)" using split eq by simp
      show ?thesis unfolding L E by (rule refl)
    next
      case ne: False
      have "calcOutbound_loop mns i p gap gap_max k r =
            calcOutbound_loop mns i p (gap * 2) (gap_max div 2) (k + 1) (insert (?at k) r)"
        using c ne "1.prems" by (subst calcOutbound_loop.simps) (auto simp: Let_def)
      also have "\<dots> = insert (?at k) r \<union> ?S (k + 1)"
        using c ne "1.prems" gm' by (intro "1.IH"(2)) auto
      finally have L: "calcOutbound_loop mns i p gap gap_max k r = insert (?at k) r \<union> ?S (k + 1)" .
      have E: "?S k = {?at k} \<union> ?S (k + 1)" using split ne by simp
      show ?thesis unfolding L E
        by (simp only: Un_insert_left Un_insert_right Un_empty_left Un_empty_right)
    qed
  qed
qed

lemma relay_range_log:
  assumes "2 \<le> n"
  shows "(j \<le> 1 \<or> (n - 1) div 2 ^ (j + 1) \<noteq> 0) \<longleftrightarrow>
         int j \<le> max 1 (\<lfloor>log 2 (real (n - 1))\<rfloor> - 1)"
proof -
  have pos: "0 < real (n - 1)" using assms by simp
  have "(n - 1) div 2 ^ (j + 1) \<noteq> 0 \<longleftrightarrow> 2 ^ (j + 1) \<le> n - 1"
    by (simp add: div_eq_0_iff not_less)
  also have "\<dots> \<longleftrightarrow> (2::real) ^ (j + 1) \<le> real (n - 1)"
    by (metis of_nat_le_iff of_nat_numeral of_nat_power)
  also have "\<dots> \<longleftrightarrow> real (j + 1) \<le> log 2 (real (n - 1))"
  proof -
    have "(2::real) ^ (j + 1) = 2 powr real (j + 1)"
      by (rule powr_realpow [symmetric]) simp
    then show ?thesis using pos by (simp only: le_log_iff [of 2 "real (n - 1)" "real (j + 1)"])
  qed
  also have "\<dots> \<longleftrightarrow> int (j + 1) \<le> \<lfloor>log 2 (real (n - 1))\<rfloor>"
    by (simp add: le_floor_iff)
  finally show ?thesis by auto
qed


lemma proTxHash_nth_eq:
  "distinct (map proTxHash mns) \<Longrightarrow> i < length mns \<Longrightarrow> j < length mns \<Longrightarrow>
   (proTxHash (mns ! j) = proTxHash (mns ! i)) = (j = i)"
  using nth_eq_iff_index_eq [of "map proTxHash mns" j i] by simp

lemma relay_fold_outbound:
  assumes "distinct (map proTxHash mns)" and "i < length mns"
  shows "set js \<subseteq> {..<length mns} \<Longrightarrow>
         foldl (relay_step mns (proTxHash (mns ! i)) True) acc js =
           acc \<union> (if i \<in> set js then calcOutbound mns i (proTxHash (mns ! i)) else {})"
proof (induction js arbitrary: acc)
  case Nil
  then show ?case by simp
next
  case (Cons j js)
  then have j: "j < length mns" by simp
  have step: "relay_step mns (proTxHash (mns ! i)) True acc j =
              (if j = i then acc \<union> calcOutbound mns i (proTxHash (mns ! i)) else acc)"
    using proTxHash_nth_eq [OF assms j] by (auto simp: relay_step_def Let_def)
  from Cons show ?case by (auto simp: step)
qed

lemma notin_collect_ne: "p \<notin> {f k | k. P k \<and> f k \<noteq> p}"
  by blast

lemma calcOutbound_set:
  assumes "2 \<le> length mns"
  shows "calcOutbound mns i p =
         {proTxHash (mns ! ((i + 2 ^ k) mod length mns)) | k.
            int k \<le> max 1 (\<lfloor>log 2 (real (length mns - 1))\<rfloor> - 1) \<and>
            proTxHash (mns ! ((i + 2 ^ k) mod length mns)) \<noteq> p}"
proof -
  have "calcOutbound mns i p =
        {} \<union> {proTxHash (mns ! ((i + 2 ^ j) mod length mns)) | j.
            0 \<le> j \<and> (j \<le> 1 \<or> (length mns - 1) div 2 ^ (j + 1) \<noteq> 0) \<and>
            proTxHash (mns ! ((i + 2 ^ j) mod length mns)) \<noteq> p}"
    unfolding calcOutbound_def by (rule calcOutbound_loop_set) simp_all
  then show ?thesis
    by (simp only: relay_range_log [OF assms] Un_empty_left le0 simp_thms)
qed

text \<open>
  Claim C3. For a member list of \<open>n \<ge> 2\<close> members with pairwise different hashes and the
  member at index \<open>i\<close>, the ring-relay set (\<open>GetQuorumRelayMembers\<close> with
  \<open>onlyOutbound = true\<close>) is exactly the set of members at the indices
  \<open>(i + 2 ^ k) mod n\<close> for \<open>k = 0, \<dots>, max 1 (\<lfloor>log\<^sub>2 (n - 1)\<rfloor> - 1)\<close>, leaving out every index
  that maps back to \<open>i\<close>; the member itself is never in the set.
\<close>

theorem C3_ring_relay_set:
  assumes "distinct (map proTxHash mns)" and "2 \<le> length mns" and "i < length mns"
  shows "GetQuorumRelayMembers mns (proTxHash (mns ! i)) True =
           {proTxHash (mns ! ((i + 2 ^ k) mod length mns)) | k.
              int k \<le> max 1 (\<lfloor>log 2 (real (length mns - 1))\<rfloor> - 1) \<and>
              (i + 2 ^ k) mod length mns \<noteq> i}
         \<and> proTxHash (mns ! i) \<notin> GetQuorumRelayMembers mns (proTxHash (mns ! i)) True"
proof -
  have idx: "(proTxHash (mns ! ((i + 2 ^ k) mod length mns)) \<noteq> proTxHash (mns ! i)) =
             ((i + 2 ^ k) mod length mns \<noteq> i)" for k
  proof -
    have "0 < length mns" using assms(2) by linarith
    then have "(i + 2 ^ k) mod length mns < length mns" by (rule mod_less_divisor)
    from proTxHash_nth_eq [OF assms(1) assms(3) this] show ?thesis by simp
  qed
  have sub: "set [0..<length mns] \<subseteq> {..<length mns}" by auto
  have G: "GetQuorumRelayMembers mns (proTxHash (mns ! i)) True = calcOutbound mns i (proTxHash (mns ! i))"
    unfolding GetQuorumRelayMembers_def
    using relay_fold_outbound [OF assms(1) assms(3) sub, of "{}"] assms(3)
    by simp
  have eq: "GetQuorumRelayMembers mns (proTxHash (mns ! i)) True =
           {proTxHash (mns ! ((i + 2 ^ k) mod length mns)) | k.
              int k \<le> max 1 (\<lfloor>log 2 (real (length mns - 1))\<rfloor> - 1) \<and>
              (i + 2 ^ k) mod length mns \<noteq> i}"
    unfolding G by (simp only: calcOutbound_set [OF assms(2)] idx)
  have "proTxHash (mns ! i) \<notin> calcOutbound mns i (proTxHash (mns ! i))"
    unfolding calcOutbound_set [OF assms(2)] by (rule notin_collect_ne)
  then have "proTxHash (mns ! i) \<notin> GetQuorumRelayMembers mns (proTxHash (mns ! i)) True"
    unfolding G .
  with eq show ?thesis by (rule conjI)
qed



theorem C3_ring_relay_set_witness:
  "distinct (map proTxHash ring9) \<and> 2 \<le> length ring9 \<and> 7 < length ring9
   \<and> proTxHash (ring9 ! 7) = 80
   \<and> GetQuorumRelayMembers ring9 80 True = {10, 30, 90}
   \<and> {proTxHash (ring9 ! ((7 + 2 ^ k) mod length ring9)) | k.
          int k \<le> max 1 (\<lfloor>log 2 (real (length ring9 - 1))\<rfloor> - 1) \<and>
          (7 + 2 ^ k) mod length ring9 \<noteq> 7} = {10, 30, 90}
   \<and> 80 \<notin> GetQuorumRelayMembers ring9 80 True"
proof -
  have h1: "distinct (map proTxHash ring9)" and h2: "2 \<le> length ring9"
    and h3: "7 < length ring9" and h4: "proTxHash (ring9 ! 7) = 80"
    by (simp_all add: ring9_def upt_conv_Cons)
  have ev: "GetQuorumRelayMembers ring9 80 True = {10, 30, 90}"
    by code_simp
  note inst = C3_ring_relay_set [OF h1 h2 h3, unfolded h4]
  from inst have a: "{proTxHash (ring9 ! ((7 + 2 ^ k) mod length ring9)) | k.
          int k \<le> max 1 (\<lfloor>log 2 (real (length ring9 - 1))\<rfloor> - 1) \<and>
          (7 + 2 ^ k) mod length ring9 \<noteq> 7} = {10, 30, 90}"
    unfolding ev by (rule conjunct1 [THEN sym])
  from inst have b: "80 \<notin> GetQuorumRelayMembers ring9 80 True"
    by (rule conjunct2)
  from h1 h2 h3 h4 ev a b show ?thesis by (intro conjI)
qed

subsection \<open>All-connected mode\<close>




lemma ring9_hashes: "proTxHash ` set ring9 = {10, 20, 30, 40, 50, 60, 70, 80, 90}"
  by (simp add: ring9_def upt_conv_Cons insert_commute)

lemma sporks_on_all_connected: "IsAllMembersConnectedEnabled sporks_on t"
  by (simp add: IsAllMembersConnectedEnabled_def EvalSpork_def sporks_on_def)




text \<open>
  Claim C2. The comment of \<open>DeterministicOutboundConnection\<close> says the function selects who
  is going to initiate the connection and returns the hash with the lowest value of
  \<open>H(min, max, x)\<close>, which is what the claim says. \<open>GetQuorumConnections\<close> uses the result the
  other way round: it puts \<open>dmn\<close> into the outbound set of \<open>forMember\<close> when the returned hash
  is \<open>dmn\<close>'s, so that the member with the smaller hash is the one connected to. At the
  members 10 and 20 of the ring, with the hash that returns its third component,
  \<open>h\<^sub>1\<^sub>0 = 10 < 20 = h\<^sub>2\<^sub>0\<close> and the function returns 10; yet 20 is not in the outbound set
  of 10, and 10 is in the outbound set of 20.
\<close>

theorem C2_initiator_reversed:
  "IsAllMembersConnectedEnabled sporks_on 1
   \<and> 10 \<in> proTxHash ` set ring9 \<and> 20 \<in> proTxHash ` set ring9
   \<and> third_of_triple (min 10 20, max 10 20, 10) < third_of_triple (min 10 20, max 10 20, 20)
   \<and> DeterministicOutboundConnection third_of_triple 10 20 = 10
   \<and> DeterministicOutboundConnection third_of_triple 20 10 = 10
   \<and> 20 \<notin> GetQuorumConnections sporks_on third_of_triple 1 ring9 10 True
   \<and> 10 \<in> GetQuorumConnections sporks_on third_of_triple 1 ring9 20 True"
proof -
  have e1: "GetQuorumConnections sporks_on third_of_triple 1 ring9 10 True = {}" by code_simp
  have e2: "GetQuorumConnections sporks_on third_of_triple 1 ring9 20 True = {10}" by code_simp
  show ?thesis
    by (simp add: sporks_on_all_connected ring9_hashes third_of_triple_def e1 e2
          DeterministicOutboundConnection_def)
qed

subsection \<open>Watch and probe connections\<close>

lemma watch_single:
  "1 \<le> n \<Longrightarrow>
   CalcDeterministicWatchConnections SHw G fresh st t b n (Suc 0) =
     (Inr {unat (G (SHw (if qwatchConnectionSeedGenerated st then qwatchConnectionSeed st else fresh,
                          (t, blockHash b)))) mod n},
      if qwatchConnectionSeedGenerated st then st
      else st\<lparr>qwatchConnectionSeed := fresh, qwatchConnectionSeedGenerated := True\<rparr>)"
  by (simp add: CalcDeterministicWatchConnections_def Let_def)

text \<open>
  Claim C7. For a node that is not a member of a non-empty quorum and has watching enabled,
  the watch computation with \<open>connectionCount = 1\<close> returns exactly one index
  \<open>idx = GetUint64(H(seed, (type, block hash))) mod n\<close>, below \<open>n\<close>, where the seed is the
  stored one or, on first use, the freshly drawn one; and \<open>EnsureQuorumConnections\<close> declares
  exactly the member at that index, as the quorum nodes and as the relay members. Nothing but
  the seed, the type, the block hash and \<open>n\<close> enters the result.
\<close>

theorem C7_watch_single_connection:
  assumes "find (\<lambda>dmn. proTxHash dmn = my) members = None" and "1 \<le> length members"
  shows "let seed = (if qwatchConnectionSeedGenerated st then qwatchConnectionSeed st else fresh);
             idx = unat (G (SHw (seed, (params_type p, blockHash b)))) mod length members
         in idx < length members
            \<and> fst (CalcDeterministicWatchConnections SHw G fresh st (params_type p) b (length members) 1)
                = Inr {idx}
            \<and> fst (EnsureQuorumConnections env SH3 SHw G fresh True st p b members my)
                = Inr (True, [SetMasternodeQuorumNodes (params_type p) (blockHash b) {proTxHash (members ! idx)},
                              SetMasternodeQuorumRelayMembers (params_type p) (blockHash b) {proTxHash (members ! idx)}])"
proof -
  from assms(2) have pos: "0 < length members" by linarith
  then have "x mod length members < length members" for x by (rule mod_less_divisor)
  with assms show ?thesis
    by (simp add: Let_def watch_single EnsureQuorumConnections_def declare_connections_def)
qed

theorem C7_watch_single_connection_witness:
  "find (\<lambda>dmn. proTxHash dmn = 5) ring9 = None \<and> 1 \<le> length ring9
   \<and> fst (CalcDeterministicWatchConnections sum_hash low64 7 seed_unset (params_type params9) block24 (length ring9) 1)
       = Inr {4}
   \<and> fst (EnsureQuorumConnections sporks_on third_of_triple sum_hash low64 7 True seed_unset
            params9 block24 ring9 5)
       = Inr (True, [SetMasternodeQuorumNodes 1 5 {50}, SetMasternodeQuorumRelayMembers 1 5 {50}])"
proof -
  have h1: "find (\<lambda>dmn. proTxHash dmn = 5) ring9 = None"
    by (simp add: ring9_def upt_conv_Cons)
  have h2: "1 \<le> length ring9" by (simp add: ring9_def)
  have idx: "unat (low64 (sum_hash (7, (1, 5)))) mod length ring9 = 4"
    by (simp add: low64_def sum_hash_def ring9_def)
  have m: "proTxHash (ring9 ! 4) = 50" by (simp add: ring9_def upt_conv_Cons)
  have t: "params_type params9 = 1" "blockHash block24 = 5" "\<not> qwatchConnectionSeedGenerated seed_unset"
    by (simp_all add: params9_def block24_def seed_unset_def)
  from C7_watch_single_connection [OF h1 h2, of seed_unset 7 low64 sum_hash params9 block24 sporks_on third_of_triple]
  have "fst (CalcDeterministicWatchConnections sum_hash low64 7 seed_unset (params_type params9) block24 (length ring9) 1)
       = Inr {4}
   \<and> fst (EnsureQuorumConnections sporks_on third_of_triple sum_hash low64 7 True seed_unset
            params9 block24 ring9 5)
       = Inr (True, [SetMasternodeQuorumNodes 1 5 {50}, SetMasternodeQuorumRelayMembers 1 5 {50}])"
    unfolding Let_def by (simp only: t if_False idx m simp_thms)
  with h1 h2 show ?thesis by (intro conjI) simp_all
qed


lemma GetMetaInfo_create:
  "GetMetaInfo newInfo mi p True = (Some (info_of newInfo mi p), mi(p \<mapsto> info_of newInfo mi p))"
  by (auto simp: GetMetaInfo_def info_of_def Let_def split: option.splits)

lemma info_of_upd: "info_of newInfo (mi(p \<mapsto> info_of newInfo mi p)) = info_of newInfo mi"
  by (rule ext) (auto simp: info_of_def split: option.splits)

text \<open>
  What the loop computes, on the code's own terms: the members other than the local node
  whose wrapped 64-bit difference, read as a signed number, exceeds 600.
\<close>

lemma probe_loop_result:
  "\<exists>mi'. probe_loop newInfo curTime my members mi probes =
          Inr (probes \<union> {proTxHash d | d. d \<in> set members \<and> proTxHash d \<noteq> my \<and>
                           sint (curTime - lastOutboundSuccess (info_of newInfo mi (proTxHash d))) > 600}, mi')"
proof (induction members arbitrary: mi probes)
  case Nil
  then show ?case by simp
next
  case (Cons dmn members)
  let ?due = "\<lambda>d. proTxHash d \<noteq> my \<and> sint (curTime - lastOutboundSuccess (info_of newInfo mi (proTxHash d))) > 600"
  let ?mi' = "mi(proTxHash dmn \<mapsto> info_of newInfo mi (proTxHash dmn))"
  have set_eq: "{proTxHash d | d. d \<in> set (dmn # members) \<and> ?due d} =
                (if ?due dmn then {proTxHash dmn} else {}) \<union> {proTxHash d | d. d \<in> set members \<and> ?due d}"
    by auto
  have step: "probe_loop newInfo curTime my (dmn # members) mi probes =
              (if proTxHash dmn = my then probe_loop newInfo curTime my members mi probes
               else probe_loop newInfo curTime my members ?mi'
                      (if ?due dmn then insert (proTxHash dmn) probes else probes))"
    by (simp add: GetMetaInfo_create Let_def)
  show ?case
  proof (cases "proTxHash dmn = my")
    case True
    with Cons.IH [of mi probes] show ?thesis
      unfolding step set_eq by auto
  next
    case False
    let ?probes' = "if ?due dmn then insert (proTxHash dmn) probes else probes"
    from Cons.IH [of ?mi' ?probes']
    obtain mi'' where "probe_loop newInfo curTime my members ?mi' ?probes' =
        Inr (?probes' \<union> {proTxHash d | d. d \<in> set members \<and> ?due d}, mi'')"
      unfolding info_of_upd by blast
    with False show ?thesis
      unfolding step set_eq by auto
  qed
qed

lemma sint_diff_in_range:
  fixes a b :: "64 word"
  assumes "age_in_range a b"
  shows "sint (a - b) = sint a - sint b"
proof -
  have "sint (a - b) = signed_take_bit (LENGTH(64) - 1) (sint a - sint b)"
    by (rule sint_word_ariths)
  also have "\<dots> = sint a - sint b"
    using assms by (simp add: age_in_range_def signed_take_bit_int_eq_self)
  finally show ?thesis .
qed

text \<open>
  Where the subtraction overflows the loop follows the wrapped difference: with the current
  time 1000 and every time stamp at the least \<open>int64_t\<close>, no member is probed.
\<close>

lemma probe_wraps_at_int64_min:
  "map_sum id fst (AddQuorumProbeConnections sporks_on info_int64_min 1000 Map.empty params9 ring9 10)
     = Inr []"
  by code_simp

text \<open>
  Claim C8. With the QUORUM\_POSE spork active for the quorum type, and every age
  \<open>curTime - lastOutboundSuccess\<close> of a member other than the local node within the range of
  an \<open>int64_t\<close>, \<open>AddQuorumProbeConnections\<close> hands to the connection manager exactly the set of
  the members, other than the local node, whose last successful outbound connection is more
  than 600 seconds before the current time (and makes no call when that set is empty); with
  the spork inactive it makes no call and leaves the meta information as it is.
\<close>

theorem C8_probe_connections:
  "let last = (\<lambda>d. lastOutboundSuccess (info_of newInfo metaInfos (proTxHash d)));
       due = {proTxHash d | d. d \<in> set members \<and> proTxHash d \<noteq> my \<and>
                sint curTime - sint (last d) > 600}
   in (ages_in_range newInfo metaInfos curTime members my \<longrightarrow>
       IsQuorumPoseEnabled env (params_type p) \<longrightarrow>
         (\<exists>metaInfos'. AddQuorumProbeConnections env newInfo curTime metaInfos p members my =
            Inr (if due = {} then [] else [AddPendingProbeConnections due], metaInfos')))
      \<and> (\<not> IsQuorumPoseEnabled env (params_type p) \<longrightarrow>
           AddQuorumProbeConnections env newInfo curTime metaInfos p members my = Inr ([], metaInfos))"
proof -
  let ?last = "\<lambda>d. lastOutboundSuccess (info_of newInfo metaInfos (proTxHash d))"
  let ?wrapped = "{proTxHash d | d. d \<in> set members \<and> proTxHash d \<noteq> my \<and>
                     sint (curTime - ?last d) > 600}"
  let ?due = "{proTxHash d | d. d \<in> set members \<and> proTxHash d \<noteq> my \<and>
                 sint curTime - sint (?last d) > 600}"
  obtain mi' where loop: "probe_loop newInfo curTime my members metaInfos {} = Inr ({} \<union> ?wrapped, mi')"
    using probe_loop_result [of newInfo curTime my members metaInfos "{}"] by blast
  have on: "\<exists>metaInfos'. AddQuorumProbeConnections env newInfo curTime metaInfos p members my =
            Inr (if ?due = {} then [] else [AddPendingProbeConnections ?due], metaInfos')"
    if range: "ages_in_range newInfo metaInfos curTime members my"
      and active: "IsQuorumPoseEnabled env (params_type p)"
  proof -
    have "sint (curTime - ?last d) = sint curTime - sint (?last d)"
      if "d \<in> set members" and "proTxHash d \<noteq> my" for d
      using range that unfolding ages_in_range_def by (intro sint_diff_in_range) blast
    then have eq: "?wrapped = ?due" by auto
    show ?thesis
      using loop active unfolding eq
      by (auto simp: AddQuorumProbeConnections_def)
  qed
  have off: "AddQuorumProbeConnections env newInfo curTime metaInfos p members my = Inr ([], metaInfos)"
    if "\<not> IsQuorumPoseEnabled env (params_type p)"
    using that by (simp add: AddQuorumProbeConnections_def)
  from on off show ?thesis unfolding Let_def by blast
qed

theorem C8_probe_connections_witness:
  "ages_in_range zero_info metaInfos2 1000 ring9 10
   \<and> IsQuorumPoseEnabled sporks_on (params_type params9)
   \<and> \<not> IsQuorumPoseEnabled sporks_off (params_type params9)
   \<and> map_sum id fst (AddQuorumProbeConnections sporks_on zero_info 1000 metaInfos2 params9 ring9 10)
       = Inr [AddPendingProbeConnections {30, 40, 50, 60, 70, 80, 90}]
   \<and> {proTxHash d | d. d \<in> set ring9 \<and> proTxHash d \<noteq> 10 \<and>
         sint (1000 :: 64 word) - sint (lastOutboundSuccess (info_of zero_info metaInfos2 (proTxHash d))) > 600}
       = {30, 40, 50, 60, 70, 80, 90}
   \<and> AddQuorumProbeConnections sporks_off zero_info 1000 metaInfos2 params9 ring9 10 = Inr ([], metaInfos2)"
proof -
  let ?due = "{proTxHash d | d. d \<in> set ring9 \<and> proTxHash d \<noteq> 10 \<and>
         sint (1000 :: 64 word) - sint (lastOutboundSuccess (info_of zero_info metaInfos2 (proTxHash d))) > 600}"
  have rng: "ages_in_range zero_info metaInfos2 1000 ring9 10"
    by (simp add: ages_in_range_def age_in_range_def ring9_def upt_conv_Cons info_of_def
          metaInfos2_def zero_info_def)
  have on: "IsQuorumPoseEnabled sporks_on (params_type params9)"
    by (simp add: IsQuorumPoseEnabled_def EvalSpork_def sporks_on_def)
  have off: "\<not> IsQuorumPoseEnabled sporks_off (params_type params9)"
    by (simp add: IsQuorumPoseEnabled_def EvalSpork_def sporks_off_def)
  have ev: "map_sum id fst (AddQuorumProbeConnections sporks_on zero_info 1000 metaInfos2 params9 ring9 10)
       = Inr [AddPendingProbeConnections {30, 40, 50, 60, 70, 80, 90}]"
    by code_simp
  note inst_on = C8_probe_connections [of zero_info metaInfos2 ring9 10 1000 sporks_on params9, unfolded Let_def]
  note inst_off = C8_probe_connections [of zero_info metaInfos2 ring9 10 1000 sporks_off params9, unfolded Let_def]
  from inst_on rng on obtain mi' where
    r: "AddQuorumProbeConnections sporks_on zero_info 1000 metaInfos2 params9 ring9 10 =
        Inr (if ?due = {} then [] else [AddPendingProbeConnections ?due], mi')"
    by blast
  from ev have calls: "(if ?due = {} then [] else [AddPendingProbeConnections ?due])
        = [AddPendingProbeConnections {30, 40, 50, 60, 70, 80, 90}]"
    unfolding r by (simp only: map_sum.simps fst_conv id_apply sum.inject)
  have due: "?due = {30, 40, 50, 60, 70, 80, 90}"
  proof (cases "?due = {}")
    case True
    from calls show ?thesis unfolding if_P [OF True] by (simp only: list.distinct)
  next
    case False
    from calls show ?thesis unfolding if_not_P [OF False]
      by (simp only: list.inject connman_call.inject simp_thms)
  qed
  from inst_off off
  have e: "AddQuorumProbeConnections sporks_off zero_info 1000 metaInfos2 params9 ring9 10 = Inr ([], metaInfos2)"
    by blast
  from rng on off ev due e show ?thesis by (intro conjI)
qed

subsection \<open>Membership cache\<close>

lemma lru_get_Some: "lru_get c k = (Some v, c') \<Longrightarrow> (k, v) \<in> set c \<and> set c' \<subseteq> set c"
  by (auto simp: lru_get_def split: option.splits dest: map_of_SomeD)

lemma lru_get_None: "lru_get c k = (None, c') \<Longrightarrow> c' = c"
  by (auto simp: lru_get_def split: option.splits)

lemma set_lru_insert: "set (lru_insert n c k v) \<subseteq> insert (k, v) (set c)"
proof -
  have "set (lru_insert n c k v) \<subseteq> set ((k, v) # filter (\<lambda>e. fst e \<noteq> k) c)"
    unfolding lru_insert_def by (rule set_take_subset)
  then show ?thesis by auto
qed

lemma cache_of_update: "cache_of (AList.update t c m) t' = (if t' = t then c else cache_of m t')"
  by (simp add: cache_of_def update_conv')

lemma cache_of_Init: "cache_of (InitQuorumsCache ts) t = []"
  by (induction ts) (auto simp: cache_of_def InitQuorumsCache_def)

lemma cache_ok_start:
  "cache_ok reg S m \<Longrightarrow> cache_ok reg S (if m = [] then InitQuorumsCache ts else m)"
  by (simp add: cache_ok_def cache_of_Init)

lemma members_for_consistent:
  "consistent_calls reg S \<Longrightarrow> (p, b) \<in> S \<Longrightarrow> (p', b') \<in> S \<Longrightarrow>
   params_type p' = params_type p \<Longrightarrow> blockHash b' = blockHash b \<Longrightarrow>
   members_for reg p' b' = members_for reg p b"
  unfolding consistent_calls_def members_for_def by fastforce

lemma GetAllQuorumMembers_unfold:
  "GetAllQuorumMembers reg m p b =
     (let m0 = (if m = [] then InitQuorumsCache (llmqs reg) else m) in
      case lru_get (cache_of m0 (params_type p)) (blockHash b) of
        (Some v, c) \<Rightarrow> (v, AList.update (params_type p) c m0)
      | (None, c) \<Rightarrow>
          (members_for reg p b,
           AList.update (params_type p)
             (lru_insert (cache_bound reg (params_type p)) c (blockHash b) (members_for reg p b))
             (AList.update (params_type p) c m0)))"
  by (simp add: GetAllQuorumMembers_def Let_def members_for_def cache_of_update
           split: prod.splits option.splits)

lemma cache_ok_hit:
  assumes ok: "cache_ok reg S m0" and sub: "set c \<subseteq> set (cache_of m0 t)"
  shows "cache_ok reg S (AList.update t c m0)"
  unfolding cache_ok_def
proof (intro allI impI)
  fix t' k v assume kv: "(k, v) \<in> set (cache_of (AList.update t c m0) t')"
  with sub have "(k, v) \<in> set (cache_of m0 t')"
    by (cases "t' = t") (auto simp: cache_of_update)
  with ok show "\<exists>(p, b)\<in>S. params_type p = t' \<and> blockHash b = k \<and> v = members_for reg p b"
    unfolding cache_ok_def by blast
qed

lemma cache_ok_miss:
  assumes ok: "cache_ok reg S m0" and mem: "(p, b) \<in> S"
  shows "cache_ok reg S
           (AList.update (params_type p)
              (lru_insert n (cache_of m0 (params_type p)) (blockHash b) (members_for reg p b))
              (AList.update (params_type p) (cache_of m0 (params_type p)) m0))"
  unfolding cache_ok_def
proof (intro allI impI)
  fix t k v
  assume kv: "(k, v) \<in> set (cache_of (AList.update (params_type p)
              (lru_insert n (cache_of m0 (params_type p)) (blockHash b) (members_for reg p b))
              (AList.update (params_type p) (cache_of m0 (params_type p)) m0)) t)"
  show "\<exists>(p, b)\<in>S. params_type p = t \<and> blockHash b = k \<and> v = members_for reg p b"
  proof (cases "t = params_type p")
    case True
    with kv have "(k, v) \<in> set (lru_insert n (cache_of m0 (params_type p)) (blockHash b) (members_for reg p b))"
      by (simp add: cache_of_update)
    with set_lru_insert
    have "(k, v) = (blockHash b, members_for reg p b) \<or> (k, v) \<in> set (cache_of m0 (params_type p))"
      by fastforce
    then show ?thesis
    proof
      assume "(k, v) = (blockHash b, members_for reg p b)"
      with mem True show ?thesis by auto
    next
      assume "(k, v) \<in> set (cache_of m0 (params_type p))"
      with True ok show ?thesis unfolding cache_ok_def by blast
    qed
  next
    case False
    with kv have "(k, v) \<in> set (cache_of m0 t)" by (simp add: cache_of_update)
    with ok show ?thesis unfolding cache_ok_def by blast
  qed
qed

lemma GetAllQuorumMembers_step:
  assumes ok: "cache_ok reg S m" and cons: "consistent_calls reg S" and mem: "(p, b) \<in> S"
  shows "fst (GetAllQuorumMembers reg m p b) = members_for reg p b
         \<and> cache_ok reg S (snd (GetAllQuorumMembers reg m p b))"
proof -
  define m0 where "m0 = (if m = [] then InitQuorumsCache (llmqs reg) else m)"
  have ok0: "cache_ok reg S m0" unfolding m0_def using ok by (rule cache_ok_start)
  obtain r c where g: "lru_get (cache_of m0 (params_type p)) (blockHash b) = (r, c)"
    by (cases "lru_get (cache_of m0 (params_type p)) (blockHash b)")
  show ?thesis
  proof (cases r)
    case None
    from g None have g': "lru_get (cache_of m0 (params_type p)) (blockHash b) = (None, c)" by (simp only:)
    have c: "c = cache_of m0 (params_type p)" by (rule lru_get_None [OF g'])
    have res: "GetAllQuorumMembers reg m p b =
       (members_for reg p b,
        AList.update (params_type p)
          (lru_insert (cache_bound reg (params_type p)) c (blockHash b) (members_for reg p b))
          (AList.update (params_type p) c m0))"
      unfolding GetAllQuorumMembers_unfold m0_def [symmetric] Let_def g' by simp
    show ?thesis unfolding res c fst_conv snd_conv
      using cache_ok_miss [OF ok0 mem] by (intro conjI refl)
  next
    case (Some v)
    from g Some have g': "lru_get (cache_of m0 (params_type p)) (blockHash b) = (Some v, c)" by (simp only:)
    from lru_get_Some [OF g']
    have hit: "(blockHash b, v) \<in> set (cache_of m0 (params_type p))"
      and sub: "set c \<subseteq> set (cache_of m0 (params_type p))"
      by (rule conjunct1, rule conjunct2)
    from hit ok0 obtain p' b' where q: "(p', b') \<in> S" "params_type p' = params_type p"
      "blockHash b' = blockHash b" and v': "v = members_for reg p' b'"
      unfolding cache_ok_def by blast
    have v: "v = members_for reg p b"
      unfolding v' by (rule members_for_consistent [OF cons mem q])
    have res: "GetAllQuorumMembers reg m p b = (v, AList.update (params_type p) c m0)"
      unfolding GetAllQuorumMembers_unfold m0_def [symmetric] Let_def g' by simp
    show ?thesis unfolding res fst_conv snd_conv
      using v cache_ok_hit [OF ok0 sub] by (intro conjI)
  qed
qed

lemma GetAllQuorumMembers_run_eq:
  "cache_ok reg S m \<Longrightarrow> consistent_calls reg S \<Longrightarrow> set calls \<subseteq> S \<Longrightarrow>
   GetAllQuorumMembers_run reg m calls = map (\<lambda>(p, b). members_for reg p b) calls"
proof (induction calls arbitrary: m)
  case Nil
  then show ?case by simp
next
  case (Cons call calls)
  obtain p b where call: "call = (p, b)" by (cases call)
  with Cons.prems have mem: "(p, b) \<in> S" by simp
  from GetAllQuorumMembers_step [OF Cons.prems(1) Cons.prems(2) mem]
  have r: "fst (GetAllQuorumMembers reg m p b) = members_for reg p b"
    and ok': "cache_ok reg S (snd (GetAllQuorumMembers reg m p b))" by simp_all
  from Cons.IH [OF ok' Cons.prems(2)] Cons.prems(3)
  have "GetAllQuorumMembers_run reg (snd (GetAllQuorumMembers reg m p b)) calls =
        map (\<lambda>(p, b). members_for reg p b) calls" by simp
  with r call show ?case by (simp add: split_beta)
qed

text \<open>
  Claim C4. Over any run of calls of \<open>GetAllQuorumMembers\<close> from the empty static cache, in
  which calls for the same (type, base block hash) come with the same size and the same
  registry snapshot, every call returns the uncached value
  \<open>CalculateQuorum(snapshot, size, H(type, block hash))\<close>: the list depends on nothing else,
  whatever the cache holds and whatever it has evicted, so repeated calls return the
  identical list.
\<close>

theorem C4_membership_deterministic:
  assumes "consistent_calls reg (set calls)"
  shows "GetAllQuorumMembers_run reg [] calls = map (\<lambda>(p, b). members_for reg p b) calls"
proof -
  have "cache_ok reg (set calls) []" by (simp add: cache_ok_def cache_of_def)
  from GetAllQuorumMembers_run_eq [OF this assms] show ?thesis by simp
qed

theorem C4_membership_deterministic_witness:
  "consistent_calls registry9 (set calls5)
   \<and> GetAllQuorumMembers_run registry9 [] calls5 = map (\<lambda>(p, b). members_for registry9 p b) calls5
   \<and> map (map proTxHash) (GetAllQuorumMembers_run registry9 [] calls5)
       = [[70, 80, 90], [80, 90, 10], [70, 80, 90], [90, 10, 20], [70, 80, 90]]"
proof -
  have h: "consistent_calls registry9 (set calls5)"
    by (simp add: consistent_calls_def calls5_def registry9_def)
  have ev: "map (map proTxHash) (GetAllQuorumMembers_run registry9 [] calls5)
       = [[70, 80, 90], [80, 90, 10], [70, 80, 90], [90, 10, 20], [70, 80, 90]]"
    by code_simp
  from h C4_membership_deterministic [OF h] ev show ?thesis by (intro conjI)
qed

subsection \<open>Pending-message buffer\<close>

lemma Push_cases:
  "PushPendingMessage H buf p m = buf \<or>
   (per_peer_count buf p < maxMessagesPerNode buf \<and> H m \<notin> seenMessages buf \<and>
    PushPendingMessage H buf p m =
      buf\<lparr>pendingMessages := pendingMessages buf @ [(p, m)],
           messagesPerNode := (messagesPerNode buf)(p \<mapsto> per_peer_count buf p + 1),
           seenMessages := insert (H m) (seenMessages buf)\<rparr>)"
  by (auto simp: PushPendingMessage_def Let_def)

lemma Push_max [simp]: "maxMessagesPerNode (PushPendingMessage H buf p m) = maxMessagesPerNode buf"
  using Push_cases [of H buf p m] by auto

lemma counter_of_upd: "counter_of (c(p \<mapsto> v)) q = (if q = p then v else counter_of c q)"
  by (simp add: counter_of_def)

lemma Push_quota:
  assumes "\<forall>q. per_peer_count buf q \<le> maxMessagesPerNode buf"
  shows "per_peer_count (PushPendingMessage H buf p m) q \<le> maxMessagesPerNode buf"
proof -
  from Push_cases [of H buf p m] show ?thesis
  proof
    assume "PushPendingMessage H buf p m = buf"
    with assms show ?thesis by simp
  next
    assume a: "per_peer_count buf p < maxMessagesPerNode buf \<and> H m \<notin> seenMessages buf \<and>
      PushPendingMessage H buf p m =
        buf\<lparr>pendingMessages := pendingMessages buf @ [(p, m)],
             messagesPerNode := (messagesPerNode buf)(p \<mapsto> per_peer_count buf p + 1),
             seenMessages := insert (H m) (seenMessages buf)\<rparr>"
    then have "per_peer_count (PushPendingMessage H buf p m) q =
               (if q = p then per_peer_count buf p + 1 else per_peer_count buf q)"
      by (simp add: per_peer_count_def counter_of_upd)
    with a assms show ?thesis by (cases "q = p") (simp_all add: Suc_leI)
  qed
qed

lemma decrement_counters_count:
  "counter_of (decrement_counters c ret) q =
   counter_of c q - length (filter (\<lambda>e. fst e = q) ret)"
proof (induction c ret rule: decrement_counters.induct)
  case (1 c)
  then show ?case by simp
next
  case (2 c p m ret)
  have "counter_of (decrement_counters c ((p, m) # ret)) q =
        counter_of (decrement_counters (c(p \<mapsto> counter_of c p - 1)) ret) q"
    by simp
  also have "\<dots> = counter_of (c(p \<mapsto> counter_of c p - 1)) q - length (filter (\<lambda>e. fst e = q) ret)"
    by (rule "2.IH")
  also have "\<dots> = counter_of c q - length (filter (\<lambda>e. fst e = q) ((p, m) # ret))"
    by (simp add: counter_of_upd)
  finally show ?case .
qed

lemma Pop_count:
  "per_peer_count (snd (PopPendingMessages buf n)) q =
   per_peer_count buf q - length (filter (\<lambda>e. fst e = q) (take n (pendingMessages buf)))"
  by (simp add: PopPendingMessages_def Let_def per_peer_count_def decrement_counters_count)

lemma Pop_max [simp]: "maxMessagesPerNode (snd (PopPendingMessages buf n)) = maxMessagesPerNode buf"
  by (simp add: PopPendingMessages_def Let_def)

lemma Pop_seen [simp]: "seenMessages (snd (PopPendingMessages buf n)) = seenMessages buf"
  by (simp add: PopPendingMessages_def Let_def)

lemma apply_op_max [simp]: "maxMessagesPerNode (apply_op H buf op) = maxMessagesPerNode buf"
  by (cases op) (simp_all add: Clear_def)

lemma apply_op_quota:
  assumes "\<forall>q. per_peer_count buf q \<le> maxMessagesPerNode buf"
  shows "per_peer_count (apply_op H buf op) q \<le> maxMessagesPerNode buf"
proof (cases op)
  case (Push p m)
  then show ?thesis using Push_quota [OF assms] by simp
next
  case (Pop n)
  have "per_peer_count (snd (PopPendingMessages buf n)) q \<le> per_peer_count buf q"
    by (simp add: Pop_count)
  also have "\<dots> \<le> maxMessagesPerNode buf" using assms by blast
  finally show ?thesis using Pop by simp
next
  case ClearAll
  then show ?thesis by (simp add: Clear_def per_peer_count_def counter_of_def)
qed

lemma apply_ops_quota:
  "\<forall>q. per_peer_count buf q \<le> maxMessagesPerNode buf \<Longrightarrow>
   maxMessagesPerNode (apply_ops H buf ops) = maxMessagesPerNode buf \<and>
   (\<forall>q. per_peer_count (apply_ops H buf ops) q \<le> maxMessagesPerNode buf)"
  unfolding apply_ops_def
proof (induction ops arbitrary: buf)
  case Nil
  then show ?case by simp
next
  case (Cons op ops)
  have "\<forall>q. per_peer_count (apply_op H buf op) q \<le> maxMessagesPerNode (apply_op H buf op)"
    using apply_op_quota [OF Cons.prems] by simp
  from Cons.IH [OF this] show ?case by simp
qed

text \<open>
  Claim C5. In the buffer reached from a freshly constructed one by any sequence of
  operations (pushes, and pops and clears as well), the cap is the one given at construction,
  the counter of every peer is at most the cap, and a push from a peer whose counter has
  reached the cap returns the buffer as it is: queue, counters and seen set unchanged.
\<close>

theorem C5_buffer_quota:
  "let buf = apply_ops H (new_CDKGPendingMessages n) ops in
     maxMessagesPerNode buf = n
     \<and> (\<forall>p. per_peer_count buf p \<le> n)
     \<and> (\<forall>p m. n \<le> per_peer_count buf p \<longrightarrow> PushPendingMessage H buf p m = buf)"
proof -
  have "\<forall>q. per_peer_count (new_CDKGPendingMessages n :: 'a CDKGPendingMessages) q
            \<le> maxMessagesPerNode (new_CDKGPendingMessages n :: 'a CDKGPendingMessages)"
    by (simp add: new_CDKGPendingMessages_def per_peer_count_def counter_of_def)
  from apply_ops_quota [OF this, of H ops]
  have a: "maxMessagesPerNode (apply_ops H (new_CDKGPendingMessages n) ops) = n"
    and b: "\<forall>q. per_peer_count (apply_ops H (new_CDKGPendingMessages n) ops) q \<le> n"
    by (simp_all add: new_CDKGPendingMessages_def)
  have c: "n \<le> per_peer_count (apply_ops H (new_CDKGPendingMessages n) ops) p \<longrightarrow>
           PushPendingMessage H (apply_ops H (new_CDKGPendingMessages n) ops) p m
             = apply_ops H (new_CDKGPendingMessages n) ops" for p m
    using a by (simp add: PushPendingMessage_def)
  from a b c show ?thesis unfolding Let_def by blast
qed

theorem C5_buffer_quota_witness:
  "maxMessagesPerNode (apply_ops byte_sum buffer2 flood4) = 2
   \<and> per_peer_count (apply_ops byte_sum buffer2 flood4) 7 = 2
   \<and> per_peer_count (apply_ops byte_sum buffer2 flood4) 7 \<le> 2
   \<and> pendingMessages (apply_ops byte_sum buffer2 flood4) = [(7, [1]), (7, [2])]
   \<and> PushPendingMessage byte_sum (apply_ops byte_sum buffer2 flood4) 7 [9]
       = apply_ops byte_sum buffer2 flood4"
proof -
  let ?B = "apply_ops byte_sum buffer2 flood4"
  note inst = C5_buffer_quota [of byte_sum 2 flood4, unfolded Let_def, folded buffer2_def]
  have cnt: "per_peer_count ?B 7 = 2" by code_simp
  have q: "pendingMessages ?B = [(7, [1]), (7, [2])]" by code_simp
  from inst have a: "maxMessagesPerNode ?B = 2" by (rule conjunct1)
  from inst have b: "per_peer_count ?B 7 \<le> 2" by blast
  from cnt have "2 \<le> per_peer_count ?B 7" by simp
  with inst have c: "PushPendingMessage byte_sum ?B 7 [9] = ?B" by blast
  from a cnt b q c show ?thesis by (intro conjI)
qed

lemma apply_op_seen_mono:
  "op \<noteq> ClearAll \<Longrightarrow> seenMessages buf \<subseteq> seenMessages (apply_op H buf op)"
proof (cases op)
  case (Push p m)
  from Push_cases [of H buf p m] have "seenMessages buf \<subseteq> seenMessages (PushPendingMessage H buf p m)"
  proof
    assume "PushPendingMessage H buf p m = buf"
    then show ?thesis by simp
  next
    assume "per_peer_count buf p < maxMessagesPerNode buf \<and> H m \<notin> seenMessages buf \<and>
      PushPendingMessage H buf p m =
        buf\<lparr>pendingMessages := pendingMessages buf @ [(p, m)],
             messagesPerNode := (messagesPerNode buf)(p \<mapsto> per_peer_count buf p + 1),
             seenMessages := insert (H m) (seenMessages buf)\<rparr>"
    then have "seenMessages (PushPendingMessage H buf p m) = insert (H m) (seenMessages buf)"
      by simp
    then show ?thesis by auto
  qed
  with Push show ?thesis by simp
next
  case (Pop n)
  then show ?thesis by simp
next
  case ClearAll
  moreover assume "op \<noteq> ClearAll"
  ultimately show ?thesis by simp
qed

lemma apply_ops_seen_mono:
  "ClearAll \<notin> set ops \<Longrightarrow> seenMessages buf \<subseteq> seenMessages (apply_ops H buf ops)"
  unfolding apply_ops_def
proof (induction ops arbitrary: buf)
  case Nil
  then show ?case by simp
next
  case (Cons op ops)
  then have "seenMessages buf \<subseteq> seenMessages (apply_op H buf op)"
    by (intro apply_op_seen_mono) auto
  moreover from Cons have "seenMessages (apply_op H buf op) \<subseteq> seenMessages (foldl (apply_op H) (apply_op H buf op) ops)"
    by simp
  ultimately show ?case by auto
qed

lemma Push_duplicate: "H m \<in> seenMessages buf \<Longrightarrow> PushPendingMessage H buf q m = buf"
  by (simp add: PushPendingMessage_def Let_def)

text \<open>
  Claim C6. When a push of message \<open>m\<close> is admitted (the peer is below the cap and the digest
  has not been seen), the message is appended to the queue and its digest is seen right after
  the push, and still after any further sequence of pushes and pops without a clear, so that a
  later push of the same bytes by any peer leaves the buffer as it is. A pop returns the first
  \<open>k\<close> queued items in queue order, removes them, lowers the counter of each peer by the
  number of its items popped and leaves the seen set alone. After a clear nothing is seen.
\<close>

theorem C6_seen_until_clear:
  assumes "per_peer_count buf p < maxMessagesPerNode buf" and "H m \<notin> seenMessages buf"
    and "ClearAll \<notin> set ops"
  shows "pendingMessages (PushPendingMessage H buf p m) = pendingMessages buf @ [(p, m)]
     \<and> HasSeen (PushPendingMessage H buf p m) (H m)
     \<and> HasSeen (apply_ops H (PushPendingMessage H buf p m) ops) (H m)
     \<and> PushPendingMessage H (apply_ops H (PushPendingMessage H buf p m) ops) q m
         = apply_ops H (PushPendingMessage H buf p m) ops
     \<and> fst (PopPendingMessages b k) = take k (pendingMessages b)
     \<and> pendingMessages (snd (PopPendingMessages b k)) = drop k (pendingMessages b)
     \<and> per_peer_count (snd (PopPendingMessages b k)) q
         = per_peer_count b q - length (filter (\<lambda>e. fst e = q) (take k (pendingMessages b)))
     \<and> seenMessages (snd (PopPendingMessages b k)) = seenMessages b
     \<and> \<not> HasSeen (Clear b) h"
proof -
  let ?b1 = "PushPendingMessage H buf p m"
  have push: "?b1 = buf\<lparr>pendingMessages := pendingMessages buf @ [(p, m)],
           messagesPerNode := (messagesPerNode buf)(p \<mapsto> per_peer_count buf p + 1),
           seenMessages := insert (H m) (seenMessages buf)\<rparr>"
    using assms(1,2) by (simp add: PushPendingMessage_def Let_def)
  have 1: "pendingMessages ?b1 = pendingMessages buf @ [(p, m)]" by (simp add: push)
  have s: "H m \<in> seenMessages ?b1" by (simp add: push)
  then have 2: "HasSeen ?b1 (H m)" by (simp add: HasSeen_def)
  from s apply_ops_seen_mono [OF assms(3), of ?b1 H]
  have s': "H m \<in> seenMessages (apply_ops H ?b1 ops)" by blast
  then have 3: "HasSeen (apply_ops H ?b1 ops) (H m)" by (simp add: HasSeen_def)
  have 4: "PushPendingMessage H (apply_ops H ?b1 ops) q m = apply_ops H ?b1 ops"
    using s' by (rule Push_duplicate)
  have 5: "fst (PopPendingMessages b k) = take k (pendingMessages b)"
    and 6: "pendingMessages (snd (PopPendingMessages b k)) = drop k (pendingMessages b)"
    by (simp_all add: PopPendingMessages_def Let_def)
  have 9: "\<not> HasSeen (Clear b) h" by (simp add: HasSeen_def Clear_def)
  from 1 2 3 4 5 6 Pop_count [of b k q] Pop_seen [of b k] 9 show ?thesis by (intro conjI)
qed

theorem C6_seen_until_clear_witness:
  "per_peer_count buffer2 7 < maxMessagesPerNode buffer2
   \<and> byte_sum [1] \<notin> seenMessages buffer2
   \<and> ClearAll \<notin> set ops3
   \<and> pendingMessages (PushPendingMessage byte_sum buffer2 7 [1]) = pendingMessages buffer2 @ [(7, [1])]
   \<and> HasSeen (PushPendingMessage byte_sum buffer2 7 [1]) (byte_sum [1])
   \<and> HasSeen (apply_ops byte_sum (PushPendingMessage byte_sum buffer2 7 [1]) ops3) (byte_sum [1])
   \<and> PushPendingMessage byte_sum (apply_ops byte_sum (PushPendingMessage byte_sum buffer2 7 [1]) ops3) 8 [1]
       = apply_ops byte_sum (PushPendingMessage byte_sum buffer2 7 [1]) ops3
   \<and> pendingMessages (apply_ops byte_sum (PushPendingMessage byte_sum buffer2 7 [1]) ops3) = [(7, [2])]
   \<and> per_peer_count (apply_ops byte_sum (PushPendingMessage byte_sum buffer2 7 [1]) ops3) 7 = 1"
proof -
  have h1: "per_peer_count buffer2 7 < maxMessagesPerNode buffer2"
    by (simp add: buffer2_def new_CDKGPendingMessages_def per_peer_count_def counter_of_def)
  have h2: "byte_sum [1] \<notin> seenMessages buffer2"
    by (simp add: buffer2_def new_CDKGPendingMessages_def)
  have h3: "ClearAll \<notin> set ops3" by (simp add: ops3_def)
  note inst = C6_seen_until_clear [where H = byte_sum and m = "[1]" and buf = buffer2 and p = 7
      and ops = ops3 and q = 8 and b = buffer2 and k = 0 and h = 1, OF h1 h2 h3]
  have q: "pendingMessages (apply_ops byte_sum (PushPendingMessage byte_sum buffer2 7 [1]) ops3) = [(7, [2])]"
    by code_simp
  have cnt: "per_peer_count (apply_ops byte_sum (PushPendingMessage byte_sum buffer2 7 [1]) ops3) 7 = 1"
    by code_simp
  from inst have c1: "pendingMessages (PushPendingMessage byte_sum buffer2 7 [1]) = pendingMessages buffer2 @ [(7, [1])]"
    and c2: "HasSeen (PushPendingMessage byte_sum buffer2 7 [1]) (byte_sum [1])"
    and c3: "HasSeen (apply_ops byte_sum (PushPendingMessage byte_sum buffer2 7 [1]) ops3) (byte_sum [1])"
    and c4: "PushPendingMessage byte_sum (apply_ops byte_sum (PushPendingMessage byte_sum buffer2 7 [1]) ops3) 8 [1]
       = apply_ops byte_sum (PushPendingMessage byte_sum buffer2 7 [1]) ops3"
    by blast+
  from h1 h2 h3 c1 c2 c3 c4 q cnt show ?thesis by (intro conjI)
qed

subsection \<open>Phases\<close>

lemma phase_step_forward: "phase_step p e = Some q \<Longrightarrow> forward p q"
  by (cases p; cases e) (auto simp: forward_def)

lemma phase_step_not_None:
  "phase_step p e = Some q \<Longrightarrow> p \<noteq> QuorumPhase_None \<and> q \<noteq> QuorumPhase_None"
  by (cases p; cases e) auto

lemma observed_phases_hd: "hd (observed_phases p es) = p \<and> observed_phases p es \<noteq> []"
  by (induction es arbitrary: p) (auto split: option.splits)

lemma observed_phases_forward: "successively forward (observed_phases p es)"
proof (induction es arbitrary: p)
  case Nil
  then show ?case by simp
next
  case (Cons e es)
  show ?case
  proof (cases "phase_step p e")
    case None
    with Cons show ?thesis by simp
  next
    case (Some q)
    from observed_phases_hd [of q es] obtain r rs where rs: "observed_phases q es = r # rs" and "r = q"
      by (cases "observed_phases q es") auto
    with Cons.IH [of q] phase_step_forward [OF Some] Some show ?thesis by simp
  qed
qed

lemma observed_phases_not_None:
  "p \<noteq> QuorumPhase_None \<Longrightarrow> QuorumPhase_None \<notin> set (observed_phases p es)"
proof (induction es arbitrary: p)
  case Nil
  then show ?case by simp
next
  case (Cons e es)
  then show ?case
    by (cases "phase_step p e") (auto dest: phase_step_not_None)
qed

text \<open>
  Claim C9. Whatever events the scheduler handles, starting idle, each observed transition is
  forward: from Idle only to Initialized (a new session), and inside a session only to the
  next phase of the order Initialized, Contribute, Complain, Justify, Commit, Finalize, Idle,
  or straight back to Idle, which ends the session; inside a session the value of the phase
  in the enumeration grows at every transition, so no transition goes backwards, and the
  phase is never \<open>QuorumPhase_None\<close>.
\<close>

theorem C9_phase_monotonic:
  "successively forward (observed_phases QuorumPhase_Idle es)
   \<and> QuorumPhase_None \<notin> set (observed_phases QuorumPhase_Idle es)
   \<and> (phase_step p e = Some q \<longrightarrow> p \<noteq> QuorumPhase_Idle \<longrightarrow>
        phase_value p < phase_value q \<and> (q = next_phase p \<or> q = QuorumPhase_Idle))
   \<and> (phase_step QuorumPhase_Idle e = Some q \<longrightarrow> q = QuorumPhase_Initialized)"
  using observed_phases_forward [of QuorumPhase_Idle es]
        observed_phases_not_None [of QuorumPhase_Idle es]
        phase_step_forward [of p e q] phase_step_forward [of QuorumPhase_Idle e q]
  by (auto simp: forward_def)

theorem C9_phase_monotonic_witness:
  "observed_phases QuorumPhase_Idle events6 =
     [QuorumPhase_Idle, QuorumPhase_Initialized, QuorumPhase_Contribute, QuorumPhase_Complain,
      QuorumPhase_Idle, QuorumPhase_Initialized]
   \<and> successively forward (observed_phases QuorumPhase_Idle events6)
   \<and> QuorumPhase_None \<notin> set (observed_phases QuorumPhase_Idle events6)
   \<and> phase_step QuorumPhase_Complain NextPhase = Some QuorumPhase_Justify
   \<and> QuorumPhase_Complain \<noteq> QuorumPhase_Idle
   \<and> phase_value QuorumPhase_Complain < phase_value QuorumPhase_Justify
   \<and> QuorumPhase_Justify = next_phase QuorumPhase_Complain
   \<and> phase_step QuorumPhase_Idle NewQuorum = Some QuorumPhase_Initialized"
proof -
  have ev: "observed_phases QuorumPhase_Idle events6 =
     [QuorumPhase_Idle, QuorumPhase_Initialized, QuorumPhase_Contribute, QuorumPhase_Complain,
      QuorumPhase_Idle, QuorumPhase_Initialized]"
    by (simp add: events6_def)
  have h1: "phase_step QuorumPhase_Complain NextPhase = Some QuorumPhase_Justify" by simp
  have h2: "QuorumPhase_Complain \<noteq> QuorumPhase_Idle" by simp
  have h3: "phase_step QuorumPhase_Idle NewQuorum = Some QuorumPhase_Initialized" by simp
  note inst = C9_phase_monotonic [of events6 QuorumPhase_Complain NextPhase QuorumPhase_Justify]
  from inst have a: "successively forward (observed_phases QuorumPhase_Idle events6)"
    and b: "QuorumPhase_None \<notin> set (observed_phases QuorumPhase_Idle events6)"
    by blast+
  from inst h1 h2 have c: "phase_value QuorumPhase_Complain < phase_value QuorumPhase_Justify"
    by blast
  have d: "QuorumPhase_Justify = next_phase QuorumPhase_Complain" by simp
  from ev a b h1 h2 c d h3 show ?thesis by (intro conjI)
qed

end
